theory Spec2Isabelle
  imports Main "HOL-Library.AList"
begin

unbundle bit_operations_syntax

section \<open>Data model\<close>

text \<open>
  The tool works on the metadata files (\<open>avb.toml\<close>) that the external codec \<open>avbroot\<close>
  writes and reads. The codec's schema gives every descriptor a string \<open>type\<close> and, for
  the kinds that name a partition, a string \<open>partition_name\<close>; every other key of the
  descriptor table is kept as the list of its key-value pairs in the order of the file,
  which is also how a Python dictionary behaves: an assignment to a key replaces the
  value in place or appends the pair (\<open>AList.update\<close>), and leaves the other keys as
  they are.
\<close>

datatype tval = TStr string | TInt int

record descriptor =
  d_type :: string
  d_partition_name :: "string option"
  d_fields :: "(string \<times> tval) list"

record avb_header =
  required_libavb_version_major :: int
  required_libavb_version_minor :: int
  algorithm_type :: string
  hash :: string
  signature :: string
  public_key :: string
  public_key_metadata :: string
  rollback_index :: int
  flags :: int
  rollback_index_location :: int
  release_string :: string
  reserved :: string
  descriptors :: "descriptor list"

record avb_footer =
  version_major :: int
  version_minor :: int
  original_image_size :: int
  vbmeta_offset :: int
  vbmeta_size :: int
  footer_reserved :: string

record avb_info =
  image_size :: int
  header :: avb_header
  footer :: "avb_footer option"

text \<open>
  Every exception the program can raise is a value. \<open>CycleError\<close> carries the cycle that
  \<open>graphlib\<close> reports; \<open>CalledProcessError\<close> is a failed codec invocation.
\<close>

datatype error =
    KeyError string
  | ValueError string
  | CycleError "string list"
  | FileNotFoundError string
  | CalledProcessError string
  | AssertionError

text \<open>
  What the program does to the outside world is recorded as a list of calls, so that a
  run that fails still shows what it did before failing. An image is either a file of the
  input directory or a logical-partition image that the codec extracted from the super
  image.
\<close>

datatype image = InputFile string | LpImage string

datatype call =
    Mkdir string
  | AvbUnpack image string
  | DumpAvbToml string avb_info
  | RenameRaw string string
  | SparseUnpack string
  | LpUnpack
  | AvbPack string avb_info "string list"
  | AvbVerify
  | RenameImage string string
  | CreateEmpty string
  | LpPack

subsection \<open>Python string methods\<close>

definition startswith :: "string \<Rightarrow> string \<Rightarrow> bool" where
  "startswith s prefix = (take (length prefix) s = prefix)"

definition endswith :: "string \<Rightarrow> string \<Rightarrow> bool" where
  "endswith s suffix = (length suffix \<le> length s \<and> drop (length s - length suffix) s = suffix)"

definition removesuffix :: "string \<Rightarrow> string \<Rightarrow> string" where
  "removesuffix s suffix =
     (if suffix \<noteq> [] \<and> endswith s suffix then take (length s - length suffix) s else s)"

section \<open>\<open>check_avbroot_version\<close>\<close>

text \<open>
  \<open>version\<close> is the text the codec printed (prefix removed, stripped) and \<open>split\<close> the
  tuple of integers parsed from it. Python compares tuples lexicographically, a proper
  prefix being smaller.
\<close>

definition AVBROOT_REQUIRED_VERSION :: "int list" where
  "AVBROOT_REQUIRED_VERSION = [3, 19, 0]"

fun tuple_less :: "int list \<Rightarrow> int list \<Rightarrow> bool" where
  "tuple_less [] [] = False"
| "tuple_less [] (y # ys) = True"
| "tuple_less (x # xs) [] = False"
| "tuple_less (x # xs) (y # ys) = (if x = y then tuple_less xs ys else x < y)"

definition check_avbroot_version :: "string \<Rightarrow> int list \<Rightarrow> error + unit" where
  "check_avbroot_version version split =
     (if tuple_less split AVBROOT_REQUIRED_VERSION
      then Inl (ValueError (''avbroot version '' @ version @ '' < 3.19.0''))
      else Inr ())"

section \<open>\<open>avb_generate_metadata\<close>\<close>

text \<open>
  The status line reads \<open>descriptor['partition_name']\<close> first, which raises \<open>KeyError\<close>
  on a descriptor without that key. \<open>'0' * n\<close> is \<open>replicate n (CHR ''0'')\<close>.
\<close>

definition avb_generate_metadata :: "descriptor \<Rightarrow> error + avb_info" where
  "avb_generate_metadata descriptor =
     (case d_partition_name descriptor of
        None \<Rightarrow> Inl (KeyError ''partition_name'')
      | Some _ \<Rightarrow>
          (let is_signed = (d_type descriptor = ''ChainPartition'') in
           Inr \<lparr> image_size = 0,
                 header = \<lparr>
                   required_libavb_version_major = 1,
                   required_libavb_version_minor = 0,
                   algorithm_type = (if is_signed then ''Sha256Rsa4096'' else ''None''),
                   hash = (if is_signed then replicate 64 (CHR ''0'') else ''''),
                   signature = (if is_signed then replicate 512 (CHR ''0'') else ''''),
                   public_key = (if is_signed then replicate 1032 (CHR ''0'') else ''''),
                   public_key_metadata = '''',
                   rollback_index = 0,
                   flags = 0,
                   rollback_index_location = 0,
                   release_string = ''avbtool 1.3.0'',
                   reserved = replicate 160 (CHR ''0''),
                   descriptors = [descriptor] \<rparr>,
                 footer = Some \<lparr>
                   version_major = 1,
                   version_minor = 0,
                   original_image_size = 0,
                   vbmeta_offset = 0,
                   vbmeta_size = 0,
                   footer_reserved = replicate 56 (CHR ''0'') \<rparr> \<rparr>))"

section \<open>The topological sorter of the Python standard library\<close>

text \<open>
  \<open>pack_subcommand\<close> orders the partitions with
  \<open>list(TopologicalSorter(avb_dep_graph).static_order())\<close>. The sorter is
  \<open>graphlib.TopologicalSorter\<close> of CPython; the definitions below follow its methods one
  by one. \<open>_node2info\<close> is a dictionary, which in Python keeps its keys in insertion order:
  an association list, extended at the end. A \<open>_NodeInfo\<close> holds the count of
  predecessors not yet done (\<open>-1\<close> is \<open>_NODE_OUT\<close>, \<open>-2\<close> is \<open>_NODE_DONE\<close>) and the list of
  successors.
\<close>

record node_info =
  npredecessors :: int
  successors :: "string list"

type_synonym node2info = "(string \<times> node_info) list"

definition get_nodeinfo :: "node2info \<Rightarrow> string \<Rightarrow> node2info" where
  "get_nodeinfo n2i node =
     (case map_of n2i node of
        None \<Rightarrow> n2i @ [(node, \<lparr> npredecessors = 0, successors = [] \<rparr>)]
      | Some _ \<Rightarrow> n2i)"

definition add_successor :: "string \<Rightarrow> node2info \<Rightarrow> string \<Rightarrow> node2info" where
  "add_successor node n2i pred =
     AList.map_entry pred (\<lambda>i. i\<lparr> successors := successors i @ [node] \<rparr>) (get_nodeinfo n2i pred)"

definition add :: "node2info \<Rightarrow> string \<Rightarrow> string list \<Rightarrow> node2info" where
  "add n2i node predecessors =
     foldl (add_successor node)
       (AList.map_entry node
          (\<lambda>i. i\<lparr> npredecessors := npredecessors i + int (length predecessors) \<rparr>)
          (get_nodeinfo n2i node))
       predecessors"

definition TopologicalSorter_init :: "(string \<times> string list) list \<Rightarrow> node2info" where
  "TopologicalSorter_init graph = foldl (\<lambda>n2i (node, predecessors). add n2i node predecessors) [] graph"

definition ready_nodes :: "node2info \<Rightarrow> string list" where
  "ready_nodes n2i = map fst (filter (\<lambda>(node, i). npredecessors i = 0) n2i)"

subsection \<open>\<open>_find_cycle\<close>\<close>

text \<open>
  An iterative depth-first search. \<open>stack\<close> and \<open>itstack\<close> grow and shrink together, so
  they are one list here, top first: each entry is a node with the successors its
  iterator has not yet produced. \<open>node2stacki\<close> maps exactly the nodes of \<open>stack\<close> to their
  index, so \<open>node in node2stacki\<close> is membership in the stack and
  \<open>stack[node2stacki[node]:]\<close> is the stack from \<open>node\<close> upwards. \<open>backtrack\<close> is the inner
  \<open>while stack\<close> loop: it pops the entries whose iterator is exhausted and returns the
  next successor, or \<open>None\<close> when the stack runs empty. A node that is not a key of
  \<open>_node2info\<close> would raise \<open>KeyError\<close> (\<open>Missing\<close>).
\<close>

datatype search = Cycle "string list" | Seen "string set" | Missing string

fun backtrack :: "(string \<times> string list) list \<Rightarrow> (string \<times> (string \<times> string list) list) option" where
  "backtrack [] = None"
| "backtrack ((n, []) # st) = backtrack st"
| "backtrack ((n, s # it) # st) = Some (s, (n, it) # st)"

text \<open>
  The search ends because every round either marks a new node as seen or consumes a
  successor from the stack.
\<close>

definition universe :: "node2info \<Rightarrow> string set" where
  "universe n2i = fst ` set n2i \<union> (\<Union>(k, i) \<in> set n2i. set (successors i))"

definition pending :: "(string \<times> string list) list \<Rightarrow> string set" where
  "pending st = (\<Union>(n, it) \<in> set st. set it)"

definition unseen :: "node2info \<Rightarrow> string \<Rightarrow> (string \<times> string list) list \<Rightarrow> string set \<Rightarrow> nat" where
  "unseen n2i node st seen = card ((universe n2i \<union> {node} \<union> pending st) - seen)"

definition remaining :: "(string \<times> string list) list \<Rightarrow> nat" where
  "remaining st = sum_list (map (\<lambda>(n, it). length it) st)"

lemma finite_universe: "finite (universe n2i)"
  by (auto simp: universe_def)

lemma finite_pending: "finite (pending st)"
  by (auto simp: pending_def)

lemma backtrack_Some:
  "backtrack st = Some (s, st') \<Longrightarrow>
     s \<in> pending st \<and> pending st' \<subseteq> pending st \<and> remaining st' < remaining st"
  by (induction st rule: backtrack.induct) (auto simp: pending_def remaining_def)

lemma successors_in_universe:
  "map_of n2i node = Some info \<Longrightarrow> set (successors info) \<subseteq> universe n2i"
  by (auto simp: universe_def dest!: map_of_SomeD)

function visit :: "node2info \<Rightarrow> string \<Rightarrow> (string \<times> string list) list \<Rightarrow> string set \<Rightarrow> search" where
  "visit n2i node st seen =
     (if node \<in> seen then
        (if node \<in> fst ` set st
         then Cycle (dropWhile (\<lambda>x. x \<noteq> node) (rev (map fst st)) @ [node])
         else (case backtrack st of
                 None \<Rightarrow> Seen seen
               | Some (node', st') \<Rightarrow> visit n2i node' st' seen))
      else
        (case map_of n2i node of
           None \<Rightarrow> Missing node
         | Some info \<Rightarrow>
             (case backtrack ((node, successors info) # st) of
                None \<Rightarrow> Seen (insert node seen)
              | Some (node', st') \<Rightarrow> visit n2i node' st' (insert node seen))))"
  by pat_completeness auto
termination
proof (relation "measures [\<lambda>(n2i, node, st, seen). unseen n2i node st seen,
                             \<lambda>(n2i, node, st, seen). remaining st]", goal_cases)
  case 1
  show ?case by simp
next
  case (2 n2i node st seen x2 x y)
  from 2 have "backtrack st = Some (x, y)" by simp
  from backtrack_Some[OF this]
  have a: "x \<in> pending st" "pending y \<subseteq> pending st" "remaining y < remaining st" by auto
  have "(universe n2i \<union> {x} \<union> pending y) - seen \<subseteq> (universe n2i \<union> {node} \<union> pending st) - seen"
    using a by auto
  then have "unseen n2i x y seen \<le> unseen n2i node st seen"
    unfolding unseen_def by (intro card_mono) (auto simp: finite_universe finite_pending)
  with a show ?case by auto
next
  case (3 n2i node st seen info x2 x y)
  from 3 have "backtrack ((node, successors info) # st) = Some (x, y)" by simp
  from backtrack_Some[OF this] successors_in_universe[OF 3(2)]
  have a: "x \<in> universe n2i \<union> pending st" "pending y \<subseteq> universe n2i \<union> pending st"
    by (auto simp: pending_def)
  have "(universe n2i \<union> {x} \<union> pending y) - insert node seen
          \<subset> (universe n2i \<union> {node} \<union> pending st) - seen"
    using a 3(1) by auto
  then have "unseen n2i x y (insert node seen) < unseen n2i node st seen"
    unfolding unseen_def by (intro psubset_card_mono) (auto simp: finite_universe finite_pending)
  then show ?case by auto
qed

declare visit.simps [simp del]

fun find_cycle_loop :: "node2info \<Rightarrow> string list \<Rightarrow> string set \<Rightarrow> search" where
  "find_cycle_loop n2i [] seen = Seen seen"
| "find_cycle_loop n2i (node # nodes) seen =
     (if node \<in> seen then find_cycle_loop n2i nodes seen
      else (case visit n2i node [] seen of
              Seen seen' \<Rightarrow> find_cycle_loop n2i nodes seen'
            | r \<Rightarrow> r))"

definition find_cycle :: "node2info \<Rightarrow> search" where
  "find_cycle n2i = find_cycle_loop n2i (map fst n2i) {}"

subsection \<open>\<open>get_ready\<close>, \<open>done\<close> and \<open>static_order\<close>\<close>

text \<open>
  \<open>mark_out\<close> is the loop of \<open>get_ready\<close> that sets the nodes it hands out to
  \<open>_NODE_OUT\<close>. \<open>done_nodes\<close> is \<open>done\<close>, with its checks, and \<open>done_successors\<close> its inner
  loop over the successors of one node. In \<open>static_order\<close> the counters \<open>_npassedout\<close>
  and \<open>_nfinished\<close> grow by the same amount in every round, so \<open>is_active\<close> is
  \<open>bool(self._ready_nodes)\<close> there. \<open>prepare\<close> raises \<open>CycleError\<close> before the generator
  yields its first node, so a graph with a cycle gives no order at all.
\<close>

fun mark_out :: "node2info \<Rightarrow> string list \<Rightarrow> error + node2info" where
  "mark_out n2i [] = Inr n2i"
| "mark_out n2i (node # nodes) =
     (case map_of n2i node of
        None \<Rightarrow> Inl (KeyError node)
      | Some info \<Rightarrow> mark_out (AList.map_entry node (\<lambda>i. i\<lparr> npredecessors := - 1 \<rparr>) n2i) nodes)"

fun done_successors :: "node2info \<times> string list \<Rightarrow> string list \<Rightarrow> error + node2info \<times> string list" where
  "done_successors (n2i, ready) [] = Inr (n2i, ready)"
| "done_successors (n2i, ready) (successor # rest) =
     (case map_of n2i successor of
        None \<Rightarrow> Inl (KeyError successor)
      | Some info \<Rightarrow>
          done_successors
            (AList.map_entry successor (\<lambda>i. i\<lparr> npredecessors := npredecessors i - 1 \<rparr>) n2i,
             if npredecessors info - 1 = 0 then ready @ [successor] else ready)
            rest)"

fun done_nodes :: "node2info \<times> string list \<Rightarrow> string list \<Rightarrow> error + node2info \<times> string list" where
  "done_nodes (n2i, ready) [] = Inr (n2i, ready)"
| "done_nodes (n2i, ready) (node # nodes) =
     (case map_of n2i node of
        None \<Rightarrow> Inl (ValueError node)
      | Some info \<Rightarrow>
          if npredecessors info \<noteq> - 1 then Inl (ValueError node)
          else (case done_successors
                       (AList.map_entry node (\<lambda>i. i\<lparr> npredecessors := - 2 \<rparr>) n2i, ready)
                       (successors info) of
                  Inl e \<Rightarrow> Inl e
                | Inr s \<Rightarrow> done_nodes s nodes))"

text \<open>
  The loop ends because the positive predecessor counts only shrink, and a node enters
  the ready list only when its count drops from one to zero.
\<close>

definition potential :: "node2info \<Rightarrow> nat" where
  "potential n2i = sum_list (map (\<lambda>(k, i). nat (npredecessors i)) n2i)"

lemma potential_map_entry:
  "map_of n2i k = Some info \<Longrightarrow>
     potential (AList.map_entry k f n2i) + nat (npredecessors info)
       = potential n2i + nat (npredecessors (f info))"
  by (induction n2i) (auto simp: potential_def)

lemma mark_out_potential:
  "mark_out n2i nodes = Inr n2i' \<Longrightarrow> potential n2i' \<le> potential n2i"
proof (induction n2i nodes rule: mark_out.induct)
  case (2 n2i node nodes)
  then obtain info where i: "map_of n2i node = Some info" by (auto split: option.splits)
  with 2 have "potential n2i' \<le> potential (AList.map_entry node (\<lambda>i. i\<lparr> npredecessors := - 1 \<rparr>) n2i)"
    by simp
  with potential_map_entry[OF i, where f="\<lambda>i. i\<lparr> npredecessors := - 1 \<rparr>"] show ?case by simp
qed simp

lemma done_successors_potential:
  "done_successors (n2i, ready) ss = Inr (n2i', ready') \<Longrightarrow>
     potential n2i' + length ready' \<le> potential n2i + length ready"
proof (induction "(n2i, ready)" ss arbitrary: n2i ready rule: done_successors.induct)
  case (2 n2i ready s rest)
  then obtain info where i: "map_of n2i s = Some info" by (auto split: option.splits)
  let ?f = "\<lambda>i. i\<lparr> npredecessors := npredecessors i - 1 \<rparr>"
  let ?ready1 = "if npredecessors info - 1 = 0 then ready @ [s] else ready"
  have rec: "done_successors (AList.map_entry s ?f n2i, ?ready1) rest = Inr (n2i', ready')"
    using 2(2) i by simp
  from 2(1)[OF i rec]
  have "potential n2i' + length ready' \<le> potential (AList.map_entry s ?f n2i) + length ?ready1" .
  with potential_map_entry[OF i, where f="?f"] show ?case by (auto split: if_splits)
qed simp

lemma done_potential:
  "done_nodes (n2i, ready) nodes = Inr (n2i', ready') \<Longrightarrow>
     potential n2i' + length ready' \<le> potential n2i + length ready"
proof (induction "(n2i, ready)" nodes arbitrary: n2i ready rule: done_nodes.induct)
  case (2 n2i ready node nodes)
  then obtain info where i: "map_of n2i node = Some info" and m: "npredecessors info = - 1"
    by (auto split: option.splits if_splits)
  let ?n1 = "AList.map_entry node (\<lambda>i. i\<lparr> npredecessors := - 2 \<rparr>) n2i"
  from 2(2) i m obtain n2 r2 where
    d: "done_successors (?n1, ready) (successors info) = Inr (n2, r2)"
    and r: "done_nodes (n2, r2) nodes = Inr (n2i', ready')"
    by (auto split: sum.splits)
  from m have nm: "\<not> npredecessors info \<noteq> - 1" by simp
  from 2(1)[OF i nm d r]
  have "potential n2i' + length ready' \<le> potential n2 + length r2" .
  with done_successors_potential[OF d] potential_map_entry[OF i, where f="\<lambda>i. i\<lparr> npredecessors := - 2 \<rparr>"] m
  show ?case by simp
qed simp

function static_order_loop :: "node2info \<Rightarrow> string list \<Rightarrow> error + string list" where
  "static_order_loop n2i ready =
     (if ready = [] then Inr []
      else (case mark_out n2i ready of
              Inl e \<Rightarrow> Inl e
            | Inr n2i1 \<Rightarrow>
                (case done_nodes (n2i1, []) ready of
                   Inl e \<Rightarrow> Inl e
                 | Inr (n2i2, ready2) \<Rightarrow>
                     (case static_order_loop n2i2 ready2 of
                        Inl e \<Rightarrow> Inl e
                      | Inr rest \<Rightarrow> Inr (ready @ rest)))))"
  by pat_completeness auto
termination
proof (relation "measure (\<lambda>(n2i, ready). 2 * potential n2i + (if ready = [] then 0 else 1))",
       goal_cases)
  case 1
  show ?case by simp
next
  case (2 n2i ready n2i1 x n2i2 ready2)
  then have d: "done_nodes (n2i1, []) ready = Inr (n2i2, ready2)" by simp
  from done_potential[OF d] mark_out_potential[OF 2(2)]
  have "potential n2i2 + length ready2 \<le> potential n2i" by simp
  with 2(1) show ?case by (cases ready2) auto
qed

declare static_order_loop.simps [simp del]

definition static_order :: "(string \<times> string list) list \<Rightarrow> error + string list" where
  "static_order graph =
     (let n2i = TopologicalSorter_init graph;
          ready = ready_nodes n2i
      in case find_cycle n2i of
           Cycle cycle \<Rightarrow> Inl (CycleError cycle)
         | Missing k \<Rightarrow> Inl (KeyError k)
         | Seen _ \<Rightarrow> static_order_loop n2i ready)"

section \<open>\<open>pack_subcommand\<close>\<close>

subsection \<open>The dependency graph\<close>

text \<open>
  \<open>avb_dep_graph\<close> is a dictionary from the name of each directory with an \<open>avb.toml\<close>
  (in the order \<open>glob\<close> lists them) to a set of names. A Python set has no order of its
  own: the order in which \<open>TopologicalSorter\<close> unpacks it (\<open>self.add(node, *predecessors)\<close>)
  depends on the hashes of the strings, which differ from one interpreter process to the
  next. The set is kept here as the sequence of its \<open>add\<close> calls, and the iteration order
  is a parameter \<open>set_iter\<close> of the run, constrained only to list each element once.
\<close>

definition referenced_names :: "string \<Rightarrow> avb_info \<Rightarrow> string list" where
  "referenced_names name avb_info =
     filter (\<lambda>partition_name. partition_name \<noteq> name)
       (List.map_filter d_partition_name (descriptors (header avb_info)))"

definition avb_dep_graph :: "(string \<times> avb_info) list \<Rightarrow> (string \<times> string list) list" where
  "avb_dep_graph glob_avb_toml =
     foldl (\<lambda>graph (name, avb_info). AList.update name (referenced_names name avb_info) graph)
       [] glob_avb_toml"

definition graph_items ::
  "(string list \<Rightarrow> string list) \<Rightarrow> (string \<times> string list) list \<Rightarrow> (string \<times> string list) list" where
  "graph_items set_iter graph = map (\<lambda>(name, adds). (name, set_iter adds)) graph"

definition iterates_sets :: "(string list \<Rightarrow> string list) \<Rightarrow> bool" where
  "iterates_sets set_iter = (\<forall>adds. distinct (set_iter adds) \<and> set (set_iter adds) = set adds)"

subsection \<open>The state of a pack run and its environment\<close>

text \<open>
  \<open>avb_toml\<close> holds the \<open>avb.toml\<close> of each partition directory; \<open>out_images\<close> the images
  present in the output directory. \<open>avb_descriptors\<close> and \<open>avb_public_keys\<close> are the two
  dictionaries of the loop. The codec is a parameter: \<open>codec_avb_pack\<close> gets the directory,
  the \<open>avb.toml\<close> it finds there and the extra arguments, and either fails or gives the
  \<open>avb.toml\<close> it writes back (\<open>--output-info\<close>).
\<close>

record pack_state =
  avb_toml :: "string \<rightharpoonup> avb_info"
  out_images :: "string set"
  avb_descriptors :: "string \<rightharpoonup> descriptor"
  avb_public_keys :: "string \<rightharpoonup> string"
  calls :: "call list"

record pack_env =
  glob_avb_toml :: "(string \<times> avb_info) list"
  set_iter :: "string list \<Rightarrow> string list"
  codec_avb_pack :: "string \<Rightarrow> avb_info \<Rightarrow> string list \<Rightarrow> error + avb_info"
  codec_avb_verify :: "pack_state \<Rightarrow> error option"
  lp_toml :: "string list list option"
  codec_lp_pack :: "pack_state \<Rightarrow> error option"

definition initial_state :: "pack_env \<Rightarrow> pack_state" where
  "initial_state env =
     \<lparr> avb_toml = map_of (glob_avb_toml env), out_images = {},
       avb_descriptors = Map.empty, avb_public_keys = Map.empty, calls = [] \<rparr>"

subsection \<open>\<open>avb_pack\<close>\<close>

definition avb_pack_extra_args :: "avb_info \<Rightarrow> string list" where
  "avb_pack_extra_args avb_info =
     (if \<exists>d \<in> set (descriptors (header avb_info)). d_type d = ''HashTree''
      then [''--recompute-size''] else [])"

definition avb_pack :: "pack_env \<Rightarrow> pack_state \<Rightarrow> string \<Rightarrow> pack_state \<times> error option" where
  "avb_pack env st name =
     (case avb_toml st name of
        None \<Rightarrow> (st, Some (FileNotFoundError (name @ ''/avb.toml'')))
      | Some avb_info \<Rightarrow>
          (let extra_args = avb_pack_extra_args avb_info;
               st1 = st\<lparr> calls := calls st @ [AvbPack name avb_info extra_args] \<rparr>
           in case codec_avb_pack env name avb_info extra_args of
                Inl e \<Rightarrow> (st1, Some e)
              | Inr written \<Rightarrow>
                  (st1\<lparr> avb_toml := (avb_toml st1)(name \<mapsto> written),
                        out_images := insert name (out_images st1) \<rparr>, None)))"

subsection \<open>The pack loop\<close>

text \<open>
  The body of \<open>for i, descriptor in enumerate(descriptors)\<close>: a descriptor that names a
  partition gets the recorded public key of that partition in its \<open>public_key\<close> entry, or
  is replaced by the recorded descriptor of that partition; \<open>avb_descriptors[partition_name]\<close>
  raises \<open>KeyError\<close> when nothing is recorded.
\<close>

definition update_descriptor ::
  "(string \<rightharpoonup> string) \<Rightarrow> (string \<rightharpoonup> descriptor) \<Rightarrow> descriptor \<Rightarrow> error + descriptor" where
  "update_descriptor public_keys recorded descriptor =
     (case d_partition_name descriptor of
        None \<Rightarrow> Inr descriptor
      | Some partition_name \<Rightarrow>
          (case public_keys partition_name of
             Some key \<Rightarrow>
               Inr (descriptor\<lparr> d_fields :=
                      AList.update ''public_key'' (TStr key) (d_fields descriptor) \<rparr>)
           | None \<Rightarrow>
               (case recorded partition_name of
                  None \<Rightarrow> Inl (KeyError partition_name)
                | Some d \<Rightarrow> Inr d)))"

fun update_descriptors ::
  "(string \<rightharpoonup> string) \<Rightarrow> (string \<rightharpoonup> descriptor) \<Rightarrow> descriptor list \<Rightarrow> error + descriptor list" where
  "update_descriptors public_keys recorded [] = Inr []"
| "update_descriptors public_keys recorded (d # ds) =
     (case update_descriptor public_keys recorded d of
        Inl e \<Rightarrow> Inl e
      | Inr d' \<Rightarrow>
          (case update_descriptors public_keys recorded ds of
             Inl e \<Rightarrow> Inl e
           | Inr ds' \<Rightarrow> Inr (d' # ds')))"

text \<open>The \<open>if is_vbmeta\<close> block: what is written to \<open>avb.toml\<close> before the image is packed.\<close>

definition prepare_vbmeta :: "pack_state \<Rightarrow> avb_info \<Rightarrow> error + avb_info" where
  "prepare_vbmeta st avb_info =
     (case update_descriptors (avb_public_keys st) (avb_descriptors st)
             (descriptors (header avb_info)) of
        Inl e \<Rightarrow> Inl e
      | Inr ds \<Rightarrow>
          Inr (avb_info\<lparr> header := (header avb_info)
                 \<lparr> descriptors := ds, flags := flags (header avb_info) AND NOT 3 \<rparr> \<rparr>))"

text \<open>
  After the codec has packed the image: the first descriptor that names the partition
  itself is recorded, and the public key when the header is signed.
\<close>

definition record_packed :: "pack_state \<Rightarrow> string \<Rightarrow> avb_info \<Rightarrow> pack_state" where
  "record_packed st name avb_info =
     (let st1 = (case find (\<lambda>d. d_partition_name d = Some name) (descriptors (header avb_info)) of
                   None \<Rightarrow> st
                 | Some descriptor \<Rightarrow>
                     st\<lparr> avb_descriptors := (avb_descriptors st)(name \<mapsto> descriptor) \<rparr>)
      in if algorithm_type (header avb_info) \<noteq> ''None''
         then st1\<lparr> avb_public_keys := (avb_public_keys st1)(name \<mapsto> public_key (header avb_info)) \<rparr>
         else st1)"

definition pack_image :: "pack_env \<Rightarrow> pack_state \<Rightarrow> string \<Rightarrow> pack_state \<times> error option" where
  "pack_image env st name =
     (let is_vbmeta = startswith name ''vbmeta'';
          prepared =
            (if is_vbmeta then
               (case avb_toml st name of
                  None \<Rightarrow> Inl (FileNotFoundError (name @ ''/avb.toml''))
                | Some avb_info \<Rightarrow>
                    (case prepare_vbmeta st avb_info of
                       Inl e \<Rightarrow> Inl e
                     | Inr avb_info' \<Rightarrow> Inr (st\<lparr> avb_toml := (avb_toml st)(name \<mapsto> avb_info') \<rparr>)))
             else Inr st)
      in case prepared of
           Inl e \<Rightarrow> (st, Some e)
         | Inr st1 \<Rightarrow>
             (case avb_pack env st1 name of
                (st2, Some e) \<Rightarrow> (st2, Some e)
              | (st2, None) \<Rightarrow>
                  (case avb_toml st2 name of
                     None \<Rightarrow> (st2, Some (FileNotFoundError (name @ ''/avb.toml'')))
                   | Some avb_info \<Rightarrow> (record_packed st2 name avb_info, None))))"

fun pack_loop :: "pack_env \<Rightarrow> pack_state \<Rightarrow> string list \<Rightarrow> pack_state \<times> error option" where
  "pack_loop env st [] = (st, None)"
| "pack_loop env st (name # names) =
     (case pack_image env st name of
        (st', Some e) \<Rightarrow> (st', Some e)
      | (st', None) \<Rightarrow> pack_loop env st' names)"

subsection \<open>The super image\<close>

text \<open>
  One slot of the logical-partition table: an \<open>_a\<close> slot takes the packed image, which
  must exist to be renamed; a \<open>_b\<close> slot gets an empty file; any other name is an error.
\<close>

definition pack_lp_partition :: "pack_state \<Rightarrow> string \<Rightarrow> pack_state \<times> error option" where
  "pack_lp_partition st lp_name =
     (if endswith lp_name ''_a'' then
        (let name = removesuffix lp_name ''_a'' in
         if name \<in> out_images st
         then (st\<lparr> out_images := out_images st - {name},
                   calls := calls st @ [RenameImage name lp_name] \<rparr>, None)
         else (st, Some (FileNotFoundError (name @ ''.img''))))
      else if endswith lp_name ''_b'' then
        (st\<lparr> calls := calls st @ [CreateEmpty lp_name] \<rparr>, None)
      else (st, Some (ValueError (''Unknown LP partition name: '' @ lp_name))))"

fun pack_lp_loop :: "pack_state \<Rightarrow> string list \<Rightarrow> pack_state \<times> error option" where
  "pack_lp_loop st [] = (st, None)"
| "pack_lp_loop st (lp_name # rest) =
     (case pack_lp_partition st lp_name of
        (st', Some e) \<Rightarrow> (st', Some e)
      | (st', None) \<Rightarrow> pack_lp_loop st' rest)"

definition pack_super :: "pack_env \<Rightarrow> pack_state \<Rightarrow> pack_state \<times> error option" where
  "pack_super env st =
     (case lp_toml env of
        None \<Rightarrow> (st, Some (FileNotFoundError ''super/lp.toml''))
      | Some groups \<Rightarrow>
          (case pack_lp_loop st (concat groups) of
             (st1, Some e) \<Rightarrow> (st1, Some e)
           | (st1, None) \<Rightarrow>
               (st1\<lparr> calls := calls st1 @ [LpPack] \<rparr>, codec_lp_pack env st1)))"

definition avb_pack_order :: "pack_env \<Rightarrow> error + string list" where
  "avb_pack_order env = static_order (graph_items (set_iter env) (avb_dep_graph (glob_avb_toml env)))"

definition pack_subcommand :: "pack_env \<Rightarrow> pack_state \<times> error option" where
  "pack_subcommand env =
     (case avb_pack_order env of
        Inl e \<Rightarrow> (initial_state env, Some e)
      | Inr order \<Rightarrow>
          (case pack_loop env (initial_state env) order of
             (st, Some e) \<Rightarrow> (st, Some e)
           | (st, None) \<Rightarrow>
               (let st1 = st\<lparr> calls := calls st @ [AvbVerify] \<rparr> in
                case codec_avb_verify env st of
                  Some e \<Rightarrow> (st1, Some e)
                | None \<Rightarrow> pack_super env st1)))"

section \<open>\<open>unpack_subcommand\<close>\<close>

text \<open>
  The environment of an unpack run: the names of the files in the input directory, the
  iteration order of sets, and the codec. \<open>codec_lp_unpack\<close> gives the names of the
  partitions in the groups of the first slot of \<open>lp.toml\<close>; \<open>lp_image_size\<close> is
  \<open>stat().st_size\<close> of an extracted image, \<open>None\<close> when the file does not exist.
\<close>

record unpack_env =
  input_files :: "string list"
  iter_set :: "string list \<Rightarrow> string list"
  codec_avb_unpack :: "image \<Rightarrow> error + avb_info"
  codec_avb_is_valid :: "string \<Rightarrow> bool"
  codec_sparse_unpack :: "string \<Rightarrow> error option"
  codec_lp_unpack :: "error + string list list"
  lp_image_size :: "string \<Rightarrow> nat option"

record unpack_state =
  vbmeta_descriptors :: "(string \<times> descriptor) list"
  lp_images :: "string list"
  done_calls :: "call list"

text \<open>The two patterns given to \<open>glob\<close>: \<open>vbmeta*.img\<close> and \<open>super.img.*\<close>.\<close>

definition glob_vbmeta :: "string \<Rightarrow> bool" where
  "glob_vbmeta f =
     (startswith f ''vbmeta'' \<and> endswith f ''.img'' \<and> length ''vbmeta'' + length ''.img'' \<le> length f)"

definition glob_super :: "string \<Rightarrow> bool" where
  "glob_super f = startswith f ''super.img.''"

definition vbmeta_images :: "unpack_env \<Rightarrow> string list" where
  "vbmeta_images env =
     iter_set env (map (\<lambda>f. removesuffix f ''.img'') (filter glob_vbmeta (input_files env)))"

text \<open>
  \<open>avb_descriptors[descriptor['partition_name']] = descriptor\<close> for every descriptor of
  an unpacked vbmeta header that names a partition.
\<close>

fun collect_descriptors :: "(string \<times> descriptor) list \<Rightarrow> descriptor list \<Rightarrow> (string \<times> descriptor) list" where
  "collect_descriptors acc [] = acc"
| "collect_descriptors acc (d # ds) =
     (case d_partition_name d of
        None \<Rightarrow> collect_descriptors acc ds
      | Some partition_name \<Rightarrow> collect_descriptors (AList.update partition_name d acc) ds)"

definition unpack_vbmeta :: "unpack_env \<Rightarrow> unpack_state \<Rightarrow> string \<Rightarrow> unpack_state \<times> error option" where
  "unpack_vbmeta env st name =
     (let img = InputFile (name @ ''.img'');
          st1 = st\<lparr> done_calls := done_calls st @ [Mkdir name, AvbUnpack img name] \<rparr>
      in case codec_avb_unpack env img of
           Inl e \<Rightarrow> (st1, Some e)
         | Inr avb_info \<Rightarrow>
             (st1\<lparr> vbmeta_descriptors :=
                      collect_descriptors (vbmeta_descriptors st1) (descriptors (header avb_info)) \<rparr>,
              None))"

fun unpack_vbmeta_loop :: "unpack_env \<Rightarrow> unpack_state \<Rightarrow> string list \<Rightarrow> unpack_state \<times> error option" where
  "unpack_vbmeta_loop env st [] = (st, None)"
| "unpack_vbmeta_loop env st (name # names) =
     (case unpack_vbmeta env st name of
        (st', Some e) \<Rightarrow> (st', Some e)
      | (st', None) \<Rightarrow> unpack_vbmeta_loop env st' names)"

fun sparse_unpack_loop :: "unpack_env \<Rightarrow> unpack_state \<Rightarrow> string list \<Rightarrow> unpack_state \<times> error option" where
  "sparse_unpack_loop env st [] = (st, None)"
| "sparse_unpack_loop env st (chunk # chunks) =
     (let st1 = st\<lparr> done_calls := done_calls st @ [SparseUnpack chunk] \<rparr>
      in case codec_sparse_unpack env chunk of
           Some e \<Rightarrow> (st1, Some e)
         | None \<Rightarrow> sparse_unpack_loop env st1 chunks)"

text \<open>
  One slot of the logical-partition table. A \<open>_b\<close> image must be empty and is skipped; a
  name with neither suffix is an error; an \<open>_a\<close> image is unpacked when the codec finds
  AVB metadata in it, and gets generated metadata from the descriptor of its partition
  otherwise (\<open>avb_descriptors[name]\<close> raises \<open>KeyError\<close> when there is none).
\<close>

definition unpack_lp_partition :: "unpack_env \<Rightarrow> unpack_state \<Rightarrow> string \<Rightarrow> unpack_state \<times> error option" where
  "unpack_lp_partition env st lp_name =
     (if endswith lp_name ''_b'' then
        (case lp_image_size env lp_name of
           None \<Rightarrow> (st, Some (FileNotFoundError (lp_name @ ''.img'')))
         | Some st_size \<Rightarrow>
             if st_size \<noteq> 0 then (st, Some (ValueError (lp_name @ '' should be empty'')))
             else (st, None))
      else if \<not> endswith lp_name ''_a'' then
        (st, Some (ValueError (''Unknown LP partition name: '' @ lp_name)))
      else
        (let name = removesuffix lp_name ''_a'';
             st1 = st\<lparr> done_calls := done_calls st @ [Mkdir name] \<rparr>
         in if codec_avb_is_valid env lp_name then
              (let st2 = st1\<lparr> done_calls := done_calls st1 @ [AvbUnpack (LpImage lp_name) name] \<rparr>
               in case codec_avb_unpack env (LpImage lp_name) of
                    Inl e \<Rightarrow> (st2, Some e)
                  | Inr _ \<Rightarrow> (st2\<lparr> lp_images := lp_images st2 @ [name] \<rparr>, None))
            else
              (case map_of (vbmeta_descriptors st1) name of
                 None \<Rightarrow> (st1, Some (KeyError name))
               | Some descriptor \<Rightarrow>
                   (case avb_generate_metadata descriptor of
                      Inl e \<Rightarrow> (st1, Some e)
                    | Inr avb_info \<Rightarrow>
                        (st1\<lparr> done_calls := done_calls st1 @ [DumpAvbToml name avb_info, RenameRaw lp_name name],
                              lp_images := lp_images st1 @ [name] \<rparr>, None)))))"

fun unpack_lp_loop :: "unpack_env \<Rightarrow> unpack_state \<Rightarrow> string list \<Rightarrow> unpack_state \<times> error option" where
  "unpack_lp_loop env st [] = (st, None)"
| "unpack_lp_loop env st (lp_name # rest) =
     (case unpack_lp_partition env st lp_name of
        (st', Some e) \<Rightarrow> (st', Some e)
      | (st', None) \<Rightarrow> unpack_lp_loop env st' rest)"

text \<open>
  \<open>for name in avb_descriptors.keys() - vbmeta_images - lp_images\<close>: the images that a
  vbmeta descriptor names and that are neither vbmeta images nor logical partitions.
\<close>

definition remaining_images :: "unpack_env \<Rightarrow> unpack_state \<Rightarrow> string list" where
  "remaining_images env st =
     iter_set env
       (filter (\<lambda>name. name \<notin> set (vbmeta_images env) \<and> name \<notin> set (lp_images st))
          (map fst (vbmeta_descriptors st)))"

fun unpack_remaining_loop :: "unpack_env \<Rightarrow> unpack_state \<Rightarrow> string list \<Rightarrow> unpack_state \<times> error option" where
  "unpack_remaining_loop env st [] = (st, None)"
| "unpack_remaining_loop env st (name # names) =
     (let img = InputFile (name @ ''.img'');
          st1 = st\<lparr> done_calls := done_calls st @ [Mkdir name, AvbUnpack img name] \<rparr>
      in case codec_avb_unpack env img of
           Inl e \<Rightarrow> (st1, Some e)
         | Inr _ \<Rightarrow> unpack_remaining_loop env st1 names)"

definition unpack_subcommand :: "unpack_env \<Rightarrow> unpack_state \<times> error option" where
  "unpack_subcommand env =
     (case unpack_vbmeta_loop env
             \<lparr> vbmeta_descriptors = [], lp_images = [], done_calls = [] \<rparr> (vbmeta_images env) of
        (st1, Some e) \<Rightarrow> (st1, Some e)
      | (st1, None) \<Rightarrow>
          (case sparse_unpack_loop env st1 (filter glob_super (input_files env)) of
             (st2, Some e) \<Rightarrow> (st2, Some e)
           | (st2, None) \<Rightarrow>
               (let st3 = st2\<lparr> done_calls := done_calls st2 @ [Mkdir ''super'', LpUnpack] \<rparr>
                in case codec_lp_unpack env of
                     Inl e \<Rightarrow> (st3, Some e)
                   | Inr groups \<Rightarrow>
                       (case unpack_lp_loop env st3 (concat groups) of
                          (st4, Some e) \<Rightarrow> (st4, Some e)
                        | (st4, None) \<Rightarrow>
                            unpack_remaining_loop env st4 (remaining_images env st4)))))"

section \<open>\<open>main\<close>\<close>

text \<open>
  \<open>args.action\<close> is \<open>None\<close> when the command line names no subcommand; \<open>assert_never\<close>
  then raises \<open>AssertionError\<close>. The result is what the run did and how it ended.
\<close>

datatype action = Unpack | Pack | NoAction

definition main ::
  "action \<Rightarrow> string \<Rightarrow> int list \<Rightarrow> unpack_env \<Rightarrow> pack_env \<Rightarrow> call list \<times> error option" where
  "main action version split uenv penv =
     (case check_avbroot_version version split of
        Inl e \<Rightarrow> ([], Some e)
      | Inr _ \<Rightarrow>
          (case action of
             Unpack \<Rightarrow> (case unpack_subcommand uenv of (st, r) \<Rightarrow> (done_calls st, r))
           | Pack \<Rightarrow> (case pack_subcommand penv of (st, r) \<Rightarrow> (calls st, r))
           | NoAction \<Rightarrow> ([], Some AssertionError)))"

section \<open>Correctness of the sorter\<close>

text \<open>
  The relation \<open>succ_rel\<close> holds the edges the sorter has stored: \<open>(p, s)\<close> when \<open>s\<close> is in the
  successor list of \<open>p\<close>, that is when \<open>p\<close> was given as a predecessor of \<open>s\<close>.
\<close>

subsection \<open>The cycle search finds a cycle exactly when there is one\<close>

text \<open>
  The invariant of the search, in the usual colours: the nodes on the stack are grey, the
  seen nodes off the stack are black. The black nodes are closed under successors and
  hold no cycle; the stack is a path, and every successor of a stack node is black, still
  to be produced by the node's iterator, or the next node up.
\<close>

definition succ_rel :: "node2info \<Rightarrow> (string \<times> string) set" where
  "succ_rel n2i = {(p, s). \<exists>info. map_of n2i p = Some info \<and> s \<in> set (successors info)}"

definition is_cycle :: "(string \<times> string) set \<Rightarrow> string list \<Rightarrow> bool" where
  "is_cycle E c = (2 \<le> length c \<and> hd c = last c \<and> successively (\<lambda>a b. (a, b) \<in> E) c)"

definition keys_ok :: "node2info \<Rightarrow> bool" where
  "keys_ok n2i = (universe n2i \<subseteq> fst ` set n2i)"

definition closed :: "(string \<times> string) set \<Rightarrow> string set \<Rightarrow> bool" where
  "closed E B = (\<forall>b \<in> B. \<forall>s. (b, s) \<in> E \<longrightarrow> s \<in> B)"

definition acyc :: "(string \<times> string) set \<Rightarrow> string set \<Rightarrow> bool" where
  "acyc E B = (\<forall>b \<in> B. (b, b) \<notin> E\<^sup>+)"

fun chain :: "(string \<times> string) set \<Rightarrow> string set \<Rightarrow> string \<Rightarrow> (string \<times> string list) list \<Rightarrow> bool" where
  "chain E B up [] = True"
| "chain E B up ((n, it) # st) =
     ((n, up) \<in> E \<and> set it \<subseteq> E `` {n} \<and> E `` {n} \<subseteq> B \<union> set it \<union> {up} \<and> chain E B n st)"

definition base_inv :: "(string \<times> string) set \<Rightarrow> (string \<times> string list) list \<Rightarrow> string set \<Rightarrow> bool" where
  "base_inv E st seen =
     (distinct (map fst st) \<and> fst ` set st \<subseteq> seen
      \<and> closed E (seen - fst ` set st) \<and> acyc E (seen - fst ` set st))"

definition entry_inv :: "node2info \<Rightarrow> string \<Rightarrow> (string \<times> string list) list \<Rightarrow> string set \<Rightarrow> bool" where
  "entry_inv n2i node st seen =
     (base_inv (succ_rel n2i) st seen \<and> node \<in> fst ` set n2i
      \<and> chain (succ_rel n2i) (seen - fst ` set st) node st)"

definition top_inv :: "node2info \<Rightarrow> (string \<times> string list) list \<Rightarrow> string set \<Rightarrow> bool" where
  "top_inv n2i st seen =
     (base_inv (succ_rel n2i) st seen
      \<and> (case st of [] \<Rightarrow> True
         | (n, it) # st' \<Rightarrow>
             set it \<subseteq> succ_rel n2i `` {n}
             \<and> succ_rel n2i `` {n} \<subseteq> (seen - fst ` set st) \<union> set it
             \<and> chain (succ_rel n2i) (seen - fst ` set st) n st'))"

lemma chain_mono: "chain E B a st \<Longrightarrow> B \<subseteq> B' \<Longrightarrow> chain E B' a st"
proof (induction st arbitrary: a)
  case Nil
  then show ?case by simp
next
  case (Cons p st)
  obtain n it where p: "p = (n, it)" by (cases p)
  from Cons.prems have "E `` {n} \<subseteq> B \<union> set it \<union> {a}" unfolding p by simp
  with Cons.prems(2) have "E `` {n} \<subseteq> B' \<union> set it \<union> {a}" by blast
  with Cons show ?case unfolding p by simp
qed

lemma closed_rtrancl: "(s, t) \<in> E\<^sup>* \<Longrightarrow> closed E B \<Longrightarrow> s \<in> B \<Longrightarrow> t \<in> B"
  by (induction rule: rtrancl_induct) (auto simp: closed_def)

lemma acyc_insert:
  assumes "closed E B" "acyc E B" "n \<notin> B" "E `` {n} \<subseteq> B"
  shows "closed E (insert n B) \<and> acyc E (insert n B)"
proof
  show "closed E (insert n B)" using assms by (auto simp: closed_def)
  have "(n, n) \<notin> E\<^sup>+"
  proof
    assume "(n, n) \<in> E\<^sup>+"
    then obtain s where s: "(n, s) \<in> E" "(s, n) \<in> E\<^sup>*" by (auto dest: tranclD)
    then have "s \<in> B" using assms(4) by auto
    with closed_rtrancl[OF s(2) assms(1)] have "n \<in> B" by simp
    with assms(3) show False by simp
  qed
  then show "acyc E (insert n B)" using assms(2) by (auto simp: acyc_def)
qed

lemma top_inv_pop:
  assumes "top_inv n2i ((n, []) # st) seen"
  shows "top_inv n2i st seen"
proof -
  let ?E = "succ_rel n2i"
  let ?B = "seen - fst ` set ((n, []) # st)"
  let ?B' = "seen - fst ` set st"
  from assms have d: "distinct (map fst st)" "n \<notin> fst ` set st" "n \<in> seen" "fst ` set st \<subseteq> seen"
    and c: "closed ?E ?B" "acyc ?E ?B"
    and t: "?E `` {n} \<subseteq> ?B" "chain ?E ?B n st"
    by (auto simp: top_inv_def base_inv_def)
  have B': "?B' = insert n ?B" using d by auto
  have "n \<notin> ?B" by simp
  from acyc_insert[OF c this t(1)] have ca: "closed ?E ?B'" "acyc ?E ?B'" unfolding B' by auto
  have "case st of [] \<Rightarrow> True
         | (m, it) # st' \<Rightarrow> set it \<subseteq> ?E `` {m} \<and> ?E `` {m} \<subseteq> ?B' \<union> set it \<and> chain ?E ?B' m st'"
  proof (cases st)
    case Nil then show ?thesis by simp
  next
    case (Cons p st')
    obtain m it where p: "p = (m, it)" by (cases p)
    from t(2) have m: "set it \<subseteq> ?E `` {m}" "?E `` {m} \<subseteq> ?B \<union> set it \<union> {n}" "chain ?E ?B m st'"
      unfolding Cons p by auto
    have "?B \<subseteq> ?B'" by auto
    from chain_mono[OF m(3) this] have "chain ?E ?B' m st'" .
    moreover from m(2) have "?E `` {m} \<subseteq> ?B' \<union> set it" unfolding B' by blast
    ultimately show ?thesis using m(1) unfolding Cons p by simp
  qed
  with d ca show ?thesis by (simp add: top_inv_def base_inv_def)
qed

lemma backtrack_None_inv:
  "top_inv n2i st seen \<Longrightarrow> backtrack st = None \<Longrightarrow>
     closed (succ_rel n2i) seen \<and> acyc (succ_rel n2i) seen"
proof (induction st rule: backtrack.induct)
  case 1
  then show ?case by (simp add: top_inv_def base_inv_def)
next
  case (2 n st)
  then show ?case using top_inv_pop by simp
next
  case (3 n s it st)
  then show ?case by simp
qed

lemma backtrack_Some_inv:
  "top_inv n2i st seen \<Longrightarrow> keys_ok n2i \<Longrightarrow> backtrack st = Some (s, st') \<Longrightarrow> entry_inv n2i s st' seen"
proof (induction st rule: backtrack.induct)
  case 1
  then show ?case by simp
next
  case (2 n st)
  then show ?case using top_inv_pop by simp
next
  case (3 n s0 it st)
  then have eq: "s = s0" "st' = (n, it) # st" by auto
  from 3(1) have "(n, s0) \<in> succ_rel n2i" by (auto simp: top_inv_def)
  then have "s0 \<in> universe n2i"
    by (auto simp: succ_rel_def universe_def dest!: map_of_SomeD)
  with 3(2) have "s0 \<in> fst ` set n2i" by (auto simp: keys_ok_def)
  with 3(1) show ?case unfolding eq 
    by (auto simp: top_inv_def entry_inv_def base_inv_def)
qed

lemma chain_path:
  "chain E B up st \<Longrightarrow> successively (\<lambda>a b. (a, b) \<in> E) (rev (map fst st) @ [up])"
proof (induction st arbitrary: up)
  case Nil
  then show ?case by simp
next
  case (Cons p st)
  obtain n it where p: "p = (n, it)" by (cases p)
  from Cons.prems have "(n, up) \<in> E" "chain E B n st" unfolding p by auto
  with Cons.IH[of n] show ?case unfolding p
    by (simp add: successively_append_iff)
qed

lemma cycle_found:
  assumes "chain E B node st" "node \<in> fst ` set st"
  shows "is_cycle E (dropWhile (\<lambda>x. x \<noteq> node) (rev (map fst st)) @ [node])"
proof -
  let ?xs = "rev (map fst st)"
  let ?dw = "dropWhile (\<lambda>x. x \<noteq> node) ?xs"
  have ne: "?dw \<noteq> []" using assms(2) by (auto simp: dropWhile_eq_Nil_conv)
  then have hd: "hd ?dw = node" using hd_dropWhile[of "\<lambda>x. x \<noteq> node" ?xs] by simp
  have "(takeWhile (\<lambda>x. x \<noteq> node) ?xs @ ?dw) @ [node] = ?xs @ [node]"
    by (simp only: takeWhile_dropWhile_id)
  then have "successively (\<lambda>a b. (a, b) \<in> E) (takeWhile (\<lambda>x. x \<noteq> node) ?xs @ (?dw @ [node]))"
    using chain_path[OF assms(1)] by (simp only: append_assoc)
  then have "successively (\<lambda>a b. (a, b) \<in> E) (?dw @ [node])"
    unfolding successively_append_iff[of _ "takeWhile (\<lambda>x. x \<noteq> node) ?xs"] by simp
  moreover have "2 \<le> length (?dw @ [node])" using ne by (cases ?dw) auto
  moreover have "hd (?dw @ [node]) = last (?dw @ [node])" using ne hd by simp
  ultimately show ?thesis by (simp add: is_cycle_def)
qed

lemma successively_trancl:
  "successively (\<lambda>a b. (a, b) \<in> E) xs \<Longrightarrow> 2 \<le> length xs \<Longrightarrow> (hd xs, last xs) \<in> E\<^sup>+"
proof (induction xs rule: induct_list012)
  case (3 x y zs)
  show ?case
  proof (cases zs)
    case Nil
    with 3 show ?thesis by auto
  next
    case (Cons z zs')
    with 3 have "(y, last (y # zs)) \<in> E\<^sup>+" "(x, y) \<in> E" by auto
    then show ?thesis by (auto intro: trancl_into_trancl2)
  qed
qed auto

lemma is_cycle_not_acyclic: "is_cycle E c \<Longrightarrow> \<not> acyclic E"
  using successively_trancl[of E c] by (auto simp: is_cycle_def acyclic_def)

lemma visit_correct:
  "entry_inv n2i node st seen \<Longrightarrow> keys_ok n2i \<Longrightarrow>
   (case visit n2i node st seen of
      Cycle c \<Rightarrow> is_cycle (succ_rel n2i) c
    | Seen seen' \<Rightarrow> closed (succ_rel n2i) seen' \<and> acyc (succ_rel n2i) seen' \<and> insert node seen \<subseteq> seen'
    | Missing k \<Rightarrow> False)"
proof (induction n2i node st seen rule: visit.induct)
  case (1 n2i node st seen)
  let ?E = "succ_rel n2i"
  show ?case
  proof (cases "node \<in> seen")
    case seen: True
    show ?thesis
    proof (cases "node \<in> fst ` set st")
      case True
      from 1(3) have "chain ?E (seen - fst ` set st) node st" by (simp add: entry_inv_def)
      from cycle_found[OF this True] seen True show ?thesis by (simp add: visit.simps[of n2i node st seen])
    next
      case False
      have top: "top_inv n2i st seen"
      proof (cases st)
        case Nil
        with 1(3) show ?thesis by (simp add: top_inv_def entry_inv_def)
      next
        case (Cons p st')
        obtain n it where p: "p = (n, it)" by (cases p)
        from 1(3) have b: "base_inv ?E st seen"
          and c: "set it \<subseteq> ?E `` {n}" "?E `` {n} \<subseteq> (seen - fst ` set st) \<union> set it \<union> {node}"
            "chain ?E (seen - fst ` set st) n st'"
          unfolding Cons p by (auto simp: entry_inv_def)
        from c(2) seen False have "?E `` {n} \<subseteq> (seen - fst ` set st) \<union> set it" by blast
        with b c show ?thesis unfolding top_inv_def by (simp add: Cons p)
      qed
      show ?thesis
      proof (cases "backtrack st")
        case None
        with backtrack_None_inv[OF top None] seen False show ?thesis
          by (simp add: visit.simps[of n2i node st seen])
      next
        case (Some r)
        obtain node' st' where r: "r = (node', st')" by (cases r)
        from backtrack_Some_inv[OF top 1(4) Some[unfolded r]]
        have "entry_inv n2i node' st' seen" .
        from 1(1)[OF seen False Some r[symmetric] this 1(4)]
        show ?thesis using seen False Some r
          by (auto simp: visit.simps[of n2i node st seen] split: search.splits)
      qed
    qed
  next
    case unseen: False
    from 1(3) have "node \<in> fst ` set n2i" by (simp add: entry_inv_def)
    then obtain info where info: "map_of n2i node = Some info"
      by (metis domD dom_map_of_conv_image_fst)
    let ?st1 = "(node, successors info) # st"
    let ?seen1 = "insert node seen"
    from 1(3) unseen have nst: "node \<notin> fst ` set st" by (auto simp: entry_inv_def base_inv_def)
    have B: "?seen1 - fst ` set ?st1 = seen - fst ` set st" using unseen by auto
    have E: "?E `` {node} = set (successors info)" using info by (auto simp: succ_rel_def)
    have top: "top_inv n2i ?st1 ?seen1"
      unfolding top_inv_def base_inv_def B using 1(3) nst E
      by (auto simp: entry_inv_def base_inv_def B)
    show ?thesis
    proof (cases "backtrack ?st1")
      case None
      with backtrack_None_inv[OF top None] unseen info show ?thesis
        by (simp add: visit.simps[of n2i node st seen])
    next
      case (Some r)
      obtain node' st' where r: "r = (node', st')" by (cases r)
      from backtrack_Some_inv[OF top 1(4) Some[unfolded r]]
      have "entry_inv n2i node' st' ?seen1" .
      from 1(2)[OF unseen info Some r[symmetric] this 1(4)]
      show ?thesis using unseen info Some r
        by (auto simp: visit.simps[of n2i node st seen] split: search.splits)
    qed
  qed
qed

lemma find_cycle_loop_correct:
  "closed (succ_rel n2i) seen \<Longrightarrow> acyc (succ_rel n2i) seen \<Longrightarrow> keys_ok n2i \<Longrightarrow>
   set nodes \<subseteq> fst ` set n2i \<Longrightarrow>
   (case find_cycle_loop n2i nodes seen of
      Cycle c \<Rightarrow> is_cycle (succ_rel n2i) c
    | Seen seen' \<Rightarrow> closed (succ_rel n2i) seen' \<and> acyc (succ_rel n2i) seen' \<and> set nodes \<union> seen \<subseteq> seen'
    | Missing k \<Rightarrow> False)"
proof (induction nodes arbitrary: seen)
  case Nil
  then show ?case by simp
next
  case (Cons node nodes)
  show ?case
  proof (cases "node \<in> seen")
    case True
    with Cons.IH[OF Cons.prems(1,2,3)] Cons.prems(4) show ?thesis
      by (auto split: search.splits)
  next
    case False
    have "entry_inv n2i node [] seen"
      using Cons.prems by (simp add: entry_inv_def base_inv_def)
    from visit_correct[OF this Cons.prems(3)]
    show ?thesis
    proof (cases "visit n2i node [] seen")
      case (Cycle c)
      with \<open>case visit n2i node [] seen of Cycle c \<Rightarrow> _ | Seen s \<Rightarrow> _ | Missing k \<Rightarrow> _\<close> False
      show ?thesis by simp
    next
      case (Seen seen')
      with \<open>case visit n2i node [] seen of Cycle c \<Rightarrow> _ | Seen s \<Rightarrow> _ | Missing k \<Rightarrow> _\<close>
      have s: "closed (succ_rel n2i) seen'" "acyc (succ_rel n2i) seen'" "insert node seen \<subseteq> seen'"
        by auto
      from Cons.IH[OF s(1,2) Cons.prems(3)] Cons.prems(4) s(3) False Seen
      show ?thesis by (auto split: search.splits)
    next
      case (Missing k)
      with \<open>case visit n2i node [] seen of Cycle c \<Rightarrow> _ | Seen s \<Rightarrow> _ | Missing k \<Rightarrow> _\<close>
      show ?thesis by simp
    qed
  qed
qed

lemma find_cycle_correct:
  assumes "keys_ok n2i"
  shows "case find_cycle n2i of
           Cycle c \<Rightarrow> is_cycle (succ_rel n2i) c
         | Seen seen' \<Rightarrow> acyclic (succ_rel n2i)
         | Missing k \<Rightarrow> False"
proof -
  have "closed (succ_rel n2i) {}" "acyc (succ_rel n2i) {}" by (auto simp: closed_def acyc_def)
  from find_cycle_loop_correct[OF this assms, of "map fst n2i"]
  have *: "case find_cycle n2i of
      Cycle c \<Rightarrow> is_cycle (succ_rel n2i) c
    | Seen seen' \<Rightarrow> acyc (succ_rel n2i) seen' \<and> fst ` set n2i \<subseteq> seen'
    | Missing k \<Rightarrow> False"
    by (auto simp: find_cycle_def split: search.splits)
  show ?thesis
  proof (cases "find_cycle n2i")
    case (Seen seen')
    with * have a: "acyc (succ_rel n2i) seen'" "fst ` set n2i \<subseteq> seen'" by auto
    have "acyclic (succ_rel n2i)"
      unfolding acyclic_def
    proof
      fix x
      show "(x, x) \<notin> (succ_rel n2i)\<^sup>+"
      proof
        assume c: "(x, x) \<in> (succ_rel n2i)\<^sup>+"
        then obtain s where "(x, s) \<in> succ_rel n2i" by (auto dest: tranclD)
        then have "x \<in> fst ` set n2i"
          by (auto simp: succ_rel_def dest!: map_of_SomeD intro: rev_image_eqI)
        with a c show False by (auto simp: acyc_def)
      qed
    qed
    with Seen show ?thesis by simp
  qed (use * in auto)
qed

subsection \<open>The stored graph and its in-degrees\<close>

text \<open>
  The rounds of \<open>static_order\<close> change the predecessor counts only. \<open>graph_of\<close> is the part
  of \<open>_node2info\<close> that stays: the keys and their successor lists. \<open>indeg D n2i n\<close> counts
  the edges into \<open>n\<close> from nodes outside \<open>D\<close>.
\<close>

definition graph_of :: "node2info \<Rightarrow> (string \<times> string list) list" where
  "graph_of n2i = map (\<lambda>(k, i). (k, successors i)) n2i"

definition npred :: "node2info \<Rightarrow> string \<Rightarrow> int" where
  "npred n2i k = (case map_of n2i k of None \<Rightarrow> 0 | Some i \<Rightarrow> npredecessors i)"

definition succs :: "node2info \<Rightarrow> string \<Rightarrow> string list" where
  "succs n2i k = (case map_of (graph_of n2i) k of None \<Rightarrow> [] | Some ss \<Rightarrow> ss)"

definition indeg :: "string set \<Rightarrow> node2info \<Rightarrow> string \<Rightarrow> nat" where
  "indeg D n2i n = (\<Sum>(p, ss) \<leftarrow> graph_of n2i. if p \<in> D then 0 else count_list ss n)"

lemma keys_graph_of: "map fst (graph_of n2i) = map fst n2i"
  by (induction n2i) (auto simp: graph_of_def)

lemma map_of_graph_of: "map_of (graph_of n2i) k = map_option successors (map_of n2i k)"
  by (induction n2i) (auto simp: graph_of_def)

lemma succ_rel_succs: "succ_rel n2i = {(p, s). s \<in> set (succs n2i p)}"
  by (auto simp: succ_rel_def succs_def map_of_graph_of split: option.splits) metis

lemma universe_graph_of:
  "universe n2i = fst ` set (graph_of n2i) \<union> (\<Union>(k, ss) \<in> set (graph_of n2i). set ss)"
  by (auto simp: universe_def graph_of_def intro: rev_image_eqI)

lemma keys_set: "fst ` set n2i = set (map fst (graph_of n2i))"
  by (simp add: keys_graph_of)

lemma same_graph:
  assumes "graph_of a = graph_of b"
  shows "succ_rel a = succ_rel b" "keys_ok a = keys_ok b" "map fst a = map fst b"
    "fst ` set a = fst ` set b" "indeg D a = indeg D b" "succs a = succs b"
proof -
  show "succs a = succs b" using assms by (simp add: succs_def fun_eq_iff)
  then show "succ_rel a = succ_rel b" by (simp add: succ_rel_succs)
  show "map fst a = map fst b" using assms keys_graph_of by metis
  then show k: "fst ` set a = fst ` set b" by (metis list.set_map)
  show "keys_ok a = keys_ok b" unfolding keys_ok_def universe_graph_of k assms ..
  show "indeg D a = indeg D b" using assms by (simp add: indeg_def fun_eq_iff)
qed

lemma graph_of_map_entry:
  "(\<And>i. successors (f i) = successors i) \<Longrightarrow> graph_of (AList.map_entry k f n2i) = graph_of n2i"
  by (induction n2i) (auto simp: graph_of_def)

lemma npred_map_entry:
  "npred (AList.map_entry k f n2i) k' =
     (if k' = k then (case map_of n2i k of None \<Rightarrow> 0 | Some i \<Rightarrow> npredecessors (f i))
      else npred n2i k')"
  by (simp add: npred_def map_of_map_entry split: option.splits)

lemma map_of_key: "k \<in> fst ` set n2i \<Longrightarrow> \<exists>info. map_of n2i k = Some info"
  by (metis domD dom_map_of_conv_image_fst)

lemma indeg_insert:
  "distinct (map fst n2i) \<Longrightarrow> p \<notin> D \<Longrightarrow>
     indeg (insert p D) n2i k + count_list (succs n2i p) k = indeg D n2i k"
proof (induction n2i)
  case Nil
  then show ?case by (simp add: indeg_def succs_def graph_of_def)
next
  case (Cons x n2i)
  obtain q i where x: "x = (q, i)" by (cases x)
  show ?case
  proof (cases "q = p")
    case True
    with Cons.prems x have "p \<notin> fst ` set n2i" by auto
    then have "indeg (insert p D) n2i k = indeg D n2i k"
      unfolding indeg_def graph_of_def
      by (intro arg_cong[where f=sum_list] map_cong) force+
    with True x Cons.prems show ?thesis by (simp add: indeg_def succs_def graph_of_def)
  next
    case False
    with Cons x show ?thesis by (simp add: indeg_def succs_def graph_of_def)
  qed
qed

lemma indeg_ge_count:
  "p \<notin> D \<Longrightarrow> s \<in> set (succs n2i p) \<Longrightarrow> count_list (succs n2i p) k \<le> indeg D n2i k"
proof -
  assume p: "p \<notin> D" and s: "s \<in> set (succs n2i p)"
  then obtain ss where m: "map_of (graph_of n2i) p = Some ss" "succs n2i p = ss"
    by (cases "map_of (graph_of n2i) p") (auto simp: succs_def)
  then have "(p, ss) \<in> set (graph_of n2i)" by (auto dest: map_of_SomeD)
  then have "(if p \<in> D then 0 else count_list ss k)
               \<in> set (map (\<lambda>(p, ss). if p \<in> D then 0 else count_list ss k) (graph_of n2i))"
    by (auto intro!: rev_image_eqI)
  from member_le_sum_list[OF this] p m show ?thesis by (simp add: indeg_def)
qed

lemma indeg_zero_preds:
  "indeg D n2i k = 0 \<Longrightarrow> (p, k) \<in> succ_rel n2i \<Longrightarrow> p \<in> D"
  using indeg_ge_count[of p D k n2i k] by (auto simp: succ_rel_succs count_list_0_iff)

lemma indeg_pos_pred:
  assumes "distinct (map fst n2i)" "0 < indeg D n2i k"
  shows "\<exists>p. p \<in> fst ` set n2i \<and> p \<notin> D \<and> (p, k) \<in> succ_rel n2i"
proof -
  from assms(2) obtain e where e: "e \<in> set (graph_of n2i)"
    "0 < (case e of (p, ss) \<Rightarrow> if p \<in> D then 0 else count_list ss k)"
    unfolding indeg_def using sum_list_eq_0_iff[of "map (\<lambda>(p, ss). if p \<in> D then 0 else count_list ss k) (graph_of n2i)"]
    by fastforce
  obtain p ss where pe: "e = (p, ss)" by (cases e)
  from assms(1) have "distinct (map fst (graph_of n2i))" by (simp add: keys_graph_of)
  with e(1) pe have "map_of (graph_of n2i) p = Some ss" by simp
  then have "succs n2i p = ss" by (simp add: succs_def)
  moreover from e(2) pe have "p \<notin> D" "0 < count_list ss k" by (auto split: if_splits)
  moreover then have "k \<in> set ss" by (metis count_notin less_numeral_extra(3))
  moreover from e(1) pe have "p \<in> fst ` set n2i" unfolding keys_set by (auto intro: rev_image_eqI)
  ultimately show ?thesis by (auto simp: succ_rel_succs)
qed

subsection \<open>The effect of \<open>get_ready\<close> and \<open>done\<close>\<close>

lemma mark_out_effect:
  "set nodes \<subseteq> fst ` set n2i \<Longrightarrow>
   \<exists>n2i'. mark_out n2i nodes = Inr n2i' \<and> graph_of n2i' = graph_of n2i
     \<and> (\<forall>k. npred n2i' k = (if k \<in> set nodes then - 1 else npred n2i k))"
proof (induction nodes arbitrary: n2i)
  case Nil
  then show ?case by simp
next
  case (Cons node nodes)
  let ?n1 = "AList.map_entry node (\<lambda>i. i\<lparr> npredecessors := - 1 \<rparr>) n2i"
  from Cons.prems obtain info where i: "map_of n2i node = Some info"
    using map_of_key[of node n2i] by auto
  have g: "graph_of ?n1 = graph_of n2i" by (simp add: graph_of_map_entry)
  from same_graph(4)[OF g] Cons.prems have "set nodes \<subseteq> fst ` set ?n1" by simp
  from Cons.IH[OF this] obtain n2i' where r: "mark_out ?n1 nodes = Inr n2i'"
    "graph_of n2i' = graph_of ?n1"
    "\<forall>k. npred n2i' k = (if k \<in> set nodes then - 1 else npred ?n1 k)" by blast
  have "\<forall>k. npred n2i' k = (if k \<in> set (node # nodes) then - 1 else npred n2i k)"
    using r(3) i by (simp add: npred_map_entry)
  with r(1,2) g i show ?case by simp
qed

lemma done_successors_effect:
  "\<forall>s \<in> set ss. s \<in> fst ` set n2i \<and> int (count_list ss s) \<le> npred n2i s \<Longrightarrow>
   \<exists>n2i' new. done_successors (n2i, ready) ss = Inr (n2i', ready @ new)
     \<and> graph_of n2i' = graph_of n2i
     \<and> (\<forall>k. npred n2i' k = npred n2i k - int (count_list ss k))
     \<and> distinct new
     \<and> set new = {k \<in> set ss. npred n2i k = int (count_list ss k)}"
proof (induction ss arbitrary: n2i ready)
  case Nil
  then show ?case by simp
next
  case (Cons s ss)
  let ?f = "\<lambda>i. i\<lparr> npredecessors := npredecessors i - 1 \<rparr>"
  let ?n1 = "AList.map_entry s ?f n2i"
  from Cons.prems obtain info where i: "map_of n2i s = Some info"
    using map_of_key[of s n2i] by auto
  then have v: "npredecessors info = npred n2i s" by (simp add: npred_def)
  let ?ready1 = "if npredecessors info - 1 = 0 then ready @ [s] else ready"
  have g: "graph_of ?n1 = graph_of n2i" by (simp add: graph_of_map_entry)
  have np1: "\<And>k. npred ?n1 k = (if k = s then npred n2i s - 1 else npred n2i k)"
    using i by (simp add: npred_map_entry v)
  have pre: "\<forall>t \<in> set ss. t \<in> fst ` set ?n1 \<and> int (count_list ss t) \<le> npred ?n1 t"
  proof
    fix t assume t: "t \<in> set ss"
    with Cons.prems have "t \<in> fst ` set n2i" "int (count_list (s # ss) t) \<le> npred n2i t" by auto
    moreover from Cons.prems have "int (count_list (s # ss) s) \<le> npred n2i s" by auto
    ultimately show "t \<in> fst ` set ?n1 \<and> int (count_list ss t) \<le> npred ?n1 t"
      unfolding same_graph(4)[OF g] np1 by auto
  qed
  from Cons.IH[OF pre, of ?ready1] obtain n2i' new where r:
    "done_successors (?n1, ?ready1) ss = Inr (n2i', ?ready1 @ new)"
    "graph_of n2i' = graph_of ?n1"
    "\<forall>k. npred n2i' k = npred ?n1 k - int (count_list ss k)"
    "distinct new"
    "set new = {k \<in> set ss. npred ?n1 k = int (count_list ss k)}" by blast
  let ?new = "(if npredecessors info - 1 = 0 then [s] else []) @ new"
  from Cons.prems have s1: "1 + int (count_list ss s) \<le> npred n2i s" by simp
  have 1: "done_successors (n2i, ready) (s # ss) = Inr (n2i', ready @ ?new)"
    using r(1) i by simp
  have 2: "graph_of n2i' = graph_of n2i" using r(2) g by simp
  have 3: "\<forall>k. npred n2i' k = npred n2i k - int (count_list (s # ss) k)"
    using r(3) np1 by auto
  have 4: "distinct ?new" using r(4,5) np1 v by (auto simp: count_list_0_iff)
  have 5: "set ?new = {k \<in> set (s # ss). npred n2i k = int (count_list (s # ss) k)}"
  proof (cases "npred n2i s = 1")
    case True
    with s1 have "count_list ss s = 0" by simp
    then have "s \<notin> set ss" by (simp add: count_list_0_iff)
    with True v r(5) np1 show ?thesis by auto
  next
    case False
    have "s \<in> set ss" if "npred n2i s = 1 + int (count_list ss s)"
    proof (rule ccontr)
      assume "s \<notin> set ss"
      then have "count_list ss s = 0" by (simp add: count_list_0_iff)
      with that False show False by simp
    qed
    have l: "set ?new = set new" using False v by simp
    have "k \<in> set new \<longleftrightarrow> k \<in> set (s # ss) \<and> npred n2i k = int (count_list (s # ss) k)" for k
    proof (cases "k = s")
      case True
      have "s \<in> set new \<longleftrightarrow> s \<in> set ss \<and> npred n2i s - 1 = int (count_list ss s)"
        unfolding r(5) using np1[of s] by simp
      with \<open>npred n2i s = 1 + int (count_list ss s) \<Longrightarrow> s \<in> set ss\<close> True
      show ?thesis by auto
    next
      case False
      have "k \<in> set new \<longleftrightarrow> k \<in> set ss \<and> npred n2i k = int (count_list ss k)"
        unfolding r(5) using np1[of k] False by simp
      with False show ?thesis by simp
    qed
    then show ?thesis unfolding l by blast
  qed
  from 1 2 3 4 5 show ?case by blast
qed

definition mid :: "string set \<Rightarrow> string list \<Rightarrow> node2info \<Rightarrow> string list \<Rightarrow> bool" where
  "mid D P n2i Q =
     (distinct (map fst n2i) \<and> keys_ok n2i \<and> D \<subseteq> fst ` set n2i
      \<and> set P \<subseteq> fst ` set n2i - D \<and> distinct P
      \<and> set Q \<subseteq> fst ` set n2i - D - set P \<and> distinct Q
      \<and> (\<forall>k \<in> set P. npred n2i k = - 1 \<and> indeg D n2i k = 0)
      \<and> (\<forall>k \<in> fst ` set n2i - D - set P.
            npred n2i k = int (indeg D n2i k) \<and> (k \<in> set Q \<longleftrightarrow> npred n2i k = 0))
      \<and> (\<forall>k \<in> D. \<forall>p. (p, k) \<in> succ_rel n2i \<longrightarrow> p \<in> D))"

lemma midD:
  assumes "mid D P n2i Q"
  shows "distinct (map fst n2i)" "keys_ok n2i" "D \<subseteq> fst ` set n2i"
    "set P \<subseteq> fst ` set n2i - D" "distinct P"
    "set Q \<subseteq> fst ` set n2i - D - set P" "distinct Q"
    "\<forall>k \<in> set P. npred n2i k = - 1 \<and> indeg D n2i k = 0"
    "\<forall>k \<in> fst ` set n2i - D - set P.
       npred n2i k = int (indeg D n2i k) \<and> (k \<in> set Q \<longleftrightarrow> npred n2i k = 0)"
    "\<forall>k \<in> D. \<forall>p. (p, k) \<in> succ_rel n2i \<longrightarrow> p \<in> D"
  using assms by (simp_all add: mid_def)

lemma mid_step:
  assumes m: "mid D (p # P) n2i Q" and i: "map_of n2i p = Some info"
  shows "\<exists>n2 Q2. done_successors
                    (AList.map_entry p (\<lambda>i. i\<lparr> npredecessors := - 2 \<rparr>) n2i, Q)
                    (successors info) = Inr (n2, Q2)
           \<and> graph_of n2 = graph_of n2i \<and> mid (insert p D) P n2 Q2"
proof -
  let ?K = "fst ` set n2i"
  let ?n1 = "AList.map_entry p (\<lambda>i. i\<lparr> npredecessors := - 2 \<rparr>) n2i"
  let ?ss = "succs n2i p"
  note md = midD[OF m]
  note dk = md(1) and ko = md(2) and DK = md(3) and PK = md(4) and dP = md(5)
    and QK = md(6) and dQ = md(7) and mP = md(8) and mR = md(9) and mD = md(10)
  from PK dP have p: "p \<in> ?K" "p \<notin> D" "p \<notin> set P" by auto
  have ss: "successors info = ?ss" using i by (simp add: succs_def map_of_graph_of)
  have g1: "graph_of ?n1 = graph_of n2i" by (simp add: graph_of_map_entry)
  have np1: "\<And>k. npred ?n1 k = (if k = p then - 2 else npred n2i k)"
    using i by (simp add: npred_map_entry)
  have cnt: "\<And>k. count_list ?ss k \<le> indeg D n2i k"
  proof -
    fix k show "count_list ?ss k \<le> indeg D n2i k"
    proof (cases "?ss = []")
      case True then show ?thesis by simp
    next
      case False
      then obtain s where "s \<in> set ?ss" by (cases ?ss) auto
      from indeg_ge_count[OF p(2) this] show ?thesis .
    qed
  qed
  have sR: "s \<in> ?K - D - set (p # P)" if s: "s \<in> set ?ss" for s
  proof -
    from s ss successors_in_universe[OF i] have "s \<in> universe n2i" by auto
    with ko have "s \<in> ?K" by (auto simp: keys_ok_def)
    moreover have "s \<notin> D"
    proof
      assume "s \<in> D"
      moreover from s have "(p, s) \<in> succ_rel n2i" by (simp add: succ_rel_succs)
      ultimately show False using mD p(2) by blast
    qed
    moreover have "s \<notin> set (p # P)"
    proof
      assume "s \<in> set (p # P)"
      with mP have "indeg D n2i s = 0" by blast
      with cnt[of s] s show False by (simp add: count_list_0_iff)
    qed
    ultimately show ?thesis by blast
  qed
  have pre: "\<forall>s \<in> set ?ss. s \<in> fst ` set ?n1 \<and> int (count_list ?ss s) \<le> npred ?n1 s"
  proof
    fix s assume s: "s \<in> set ?ss"
    from sR[OF s] mR have "npred n2i s = int (indeg D n2i s)" "s \<noteq> p" "s \<in> ?K" by auto
    with cnt[of s] show "s \<in> fst ` set ?n1 \<and> int (count_list ?ss s) \<le> npred ?n1 s"
      unfolding same_graph(4)[OF g1] np1 by simp
  qed
  from done_successors_effect[OF pre, of Q] obtain n2 new where r:
    "done_successors (?n1, Q) ?ss = Inr (n2, Q @ new)"
    "graph_of n2 = graph_of ?n1"
    "\<forall>k. npred n2 k = npred ?n1 k - int (count_list ?ss k)"
    "distinct new"
    "set new = {k \<in> set ?ss. npred ?n1 k = int (count_list ?ss k)}" by blast
  have g2: "graph_of n2 = graph_of n2i" using r(2) g1 by simp
  note sg = same_graph[OF g2]
  have newR: "set new \<subseteq> ?K - D - set (p # P)" using r(5) sR by auto
  have np2: "\<And>k. k \<noteq> p \<Longrightarrow> npred n2 k = npred n2i k - int (count_list ?ss k)"
    using r(3) np1 by simp
  have ind: "\<And>k. int (indeg (insert p D) n2i k) = int (indeg D n2i k) - int (count_list ?ss k)"
    using indeg_insert[OF dk p(2)] by (metis add_diff_cancel_right' of_nat_add)
  have c1: "set (Q @ new) \<subseteq> ?K - insert p D - set P" using QK newR by auto
  have c2: "distinct (Q @ new)"
  proof -
    have "set Q \<inter> set new = {}"
    proof (rule ccontr)
      assume "set Q \<inter> set new \<noteq> {}"
      then obtain k where k: "k \<in> set Q" "k \<in> set new" by auto
      with QK mR have "npred n2i k = 0" "k \<noteq> p" by auto
      moreover from k(2) r(5) have "k \<in> set ?ss" "npred ?n1 k = int (count_list ?ss k)" by auto
      ultimately show False using np1[of k] by (simp add: count_list_0_iff)
    qed
    with dQ r(4) show ?thesis by simp
  qed
  have c3: "\<forall>k \<in> set P. npred n2 k = - 1 \<and> indeg (insert p D) n2i k = 0"
  proof
    fix k assume k: "k \<in> set P"
    with mP have a: "npred n2i k = - 1" "indeg D n2i k = 0" by auto
    from k p(3) have "k \<noteq> p" by auto
    with a cnt[of k] np2[of k] indeg_insert[OF dk p(2), of k]
    show "npred n2 k = - 1 \<and> indeg (insert p D) n2i k = 0" by simp
  qed
  have c4: "\<forall>k \<in> ?K - insert p D - set P.
              npred n2 k = int (indeg (insert p D) n2i k) \<and> (k \<in> set (Q @ new) \<longleftrightarrow> npred n2 k = 0)"
  proof
    fix k assume k: "k \<in> ?K - insert p D - set P"
    then have kp: "k \<noteq> p" and kR: "k \<in> ?K - D - set (p # P)" by auto
    from kR mR have a: "npred n2i k = int (indeg D n2i k)" "k \<in> set Q \<longleftrightarrow> npred n2i k = 0" by auto
    have b: "npred n2 k = int (indeg (insert p D) n2i k)" using np2[OF kp] a(1) ind by simp
    have "k \<in> set new \<longleftrightarrow> k \<in> set ?ss \<and> npred n2i k = int (count_list ?ss k)"
      using r(5) np1[of k] kp by auto
    then have "k \<in> set (Q @ new) \<longleftrightarrow> npred n2 k = 0"
      using a cnt[of k] np2[OF kp] by (auto simp: count_list_0_iff)
    with b show "npred n2 k = int (indeg (insert p D) n2i k) \<and> (k \<in> set (Q @ new) \<longleftrightarrow> npred n2 k = 0)"
      by simp
  qed
  have c5: "\<forall>k \<in> insert p D. \<forall>q. (q, k) \<in> succ_rel n2i \<longrightarrow> q \<in> insert p D"
  proof (intro ballI allI impI)
    fix k q assume k: "k \<in> insert p D" and e: "(q, k) \<in> succ_rel n2i"
    show "q \<in> insert p D"
    proof (cases "k = p")
      case True
      from mP have "indeg D n2i p = 0" by simp
      from indeg_zero_preds[OF this] e True show ?thesis by simp
    next
      case False
      with k mD e show ?thesis by blast
    qed
  qed
  have f1: "distinct (map fst n2)" using dk sg(3) by simp
  have f2: "keys_ok n2" using ko sg(2) by simp
  have f3: "insert p D \<subseteq> fst ` set n2" using DK p(1) sg(4) by simp
  have f4: "set P \<subseteq> fst ` set n2 - insert p D" using PK dP unfolding sg(4) by auto
  have f5: "distinct P" using dP by simp
  have f6: "set (Q @ new) \<subseteq> fst ` set n2 - insert p D - set P" using c1 unfolding sg(4) .
  have f7: "\<forall>k \<in> set P. npred n2 k = - 1 \<and> indeg (insert p D) n2 k = 0"
    using c3 unfolding sg(5) .
  have f8: "\<forall>k \<in> fst ` set n2 - insert p D - set P.
              npred n2 k = int (indeg (insert p D) n2 k) \<and> (k \<in> set (Q @ new) \<longleftrightarrow> npred n2 k = 0)"
    using c4 unfolding sg(4) sg(5) .
  have f9: "\<forall>k \<in> insert p D. \<forall>q. (q, k) \<in> succ_rel n2 \<longrightarrow> q \<in> insert p D"
    using c5 unfolding sg(1) .
  have "mid (insert p D) P n2 (Q @ new)"
    unfolding mid_def by (intro conjI f1 f2 f3 f4 f5 f6 c2 f7 f8 f9)
  with r(1) g2 show ?thesis unfolding ss by blast
qed

lemma done_nodes_effect:
  "mid D P n2i Q \<Longrightarrow>
   \<exists>n2i' Q'. done_nodes (n2i, Q) P = Inr (n2i', Q') \<and> graph_of n2i' = graph_of n2i
     \<and> mid (D \<union> set P) [] n2i' Q'"
proof (induction P arbitrary: D n2i Q)
  case Nil
  then show ?case by simp
next
  case (Cons p P)
  from midD(4,8)[OF Cons.prems] have "p \<in> fst ` set n2i" "npred n2i p = - 1" by auto
  then obtain info where i: "map_of n2i p = Some info" "npredecessors info = - 1"
    using map_of_key[of p n2i] by (auto simp: npred_def)
  from mid_step[OF Cons.prems i(1)] obtain n2 Q2 where s:
    "done_successors (AList.map_entry p (\<lambda>i. i\<lparr> npredecessors := - 2 \<rparr>) n2i, Q) (successors info)
       = Inr (n2, Q2)"
    "graph_of n2 = graph_of n2i" "mid (insert p D) P n2 Q2" by blast
  from Cons.IH[OF s(3)] obtain n2i' Q' where r:
    "done_nodes (n2, Q2) P = Inr (n2i', Q')" "graph_of n2i' = graph_of n2"
    "mid (insert p D \<union> set P) [] n2i' Q'" by blast
  from i s(1) r(1) have "done_nodes (n2i, Q) (p # P) = Inr (n2i', Q')" by simp
  with r(2,3) s(2) show ?case by simp
qed

subsection \<open>The rounds of \<open>static_order\<close>\<close>

lemma finite_succ_rel: "finite (succ_rel n2i)"
proof -
  have "succ_rel n2i \<subseteq> universe n2i \<times> universe n2i"
    by (auto simp: succ_rel_def universe_def dest!: map_of_SomeD intro: rev_image_eqI)
  then show ?thesis using finite_universe by (meson finite_SigmaI finite_subset)
qed

lemma stuck_imp_all_done:
  assumes m: "mid D [] n2i []" and a: "acyclic (succ_rel n2i)"
  shows "fst ` set n2i - D = {}"
proof (rule ccontr)
  let ?Q = "fst ` set n2i - D"
  assume "?Q \<noteq> {}"
  then obtain x where x: "x \<in> ?Q" by auto
  have "wf (succ_rel n2i)" using finite_acyclic_wf[OF finite_succ_rel a] .
  from wfE_min[OF this x] obtain z where z: "z \<in> ?Q" "\<And>y. (y, z) \<in> succ_rel n2i \<Longrightarrow> y \<notin> ?Q"
    by blast
  from z(1) have "z \<in> fst ` set n2i - D - set []" by simp
  from midD(9)[OF m, rule_format, OF this]
  have "0 < indeg D n2i z" by simp
  from indeg_pos_pred[OF midD(1)[OF m] this] z(2) show False by auto
qed

lemma static_order_loop_correct:
  "mid D [] n2i ready \<Longrightarrow> acyclic (succ_rel n2i) \<Longrightarrow>
   \<exists>rest. static_order_loop n2i ready = Inr rest \<and> distinct rest
     \<and> set rest = fst ` set n2i - D
     \<and> (\<forall>k \<in> set rest. \<forall>p. (p, k) \<in> succ_rel n2i \<longrightarrow>
            p \<in> D \<union> set (takeWhile (\<lambda>x. x \<noteq> k) rest))"
proof (induction n2i ready arbitrary: D rule: static_order_loop.induct)
  case (1 n2i ready)
  note m = 1(2) and a = 1(3)
  show ?case
  proof (cases "ready = []")
    case True
    with stuck_imp_all_done[of D n2i] m a show ?thesis
      by (simp add: static_order_loop.simps[of n2i "[]"])
  next
    case False
    note md = midD[OF m]
    have rK: "set ready \<subseteq> fst ` set n2i" using md(6) by auto
    from mark_out_effect[OF rK] obtain n1 where n1: "mark_out n2i ready = Inr n1"
      "graph_of n1 = graph_of n2i"
      "\<forall>k. npred n1 k = (if k \<in> set ready then - 1 else npred n2i k)" by blast
    note sg1 = same_graph[OF n1(2)]
    have r0: "\<forall>k \<in> set ready. npred n2i k = 0 \<and> indeg D n2i k = 0"
    proof
      fix k assume k: "k \<in> set ready"
      with md(6) have "k \<in> fst ` set n2i - D - set []" by auto
      from md(9)[rule_format, OF this] k show "npred n2i k = 0 \<and> indeg D n2i k = 0" by simp
    qed
    have m1: "mid D ready n1 []"
      unfolding mid_def sg1(1) sg1(2) sg1(3) sg1(4) sg1(5)
    proof (intro conjI)
      show "\<forall>k\<in>set ready. npred n1 k = - 1 \<and> indeg D n2i k = 0" using n1(3) r0 by simp
      show "\<forall>k\<in>fst ` set n2i - D - set ready.
              npred n1 k = int (indeg D n2i k) \<and> (k \<in> set [] \<longleftrightarrow> npred n1 k = 0)"
        using n1(3) md(9) by auto
      show "set ready \<subseteq> fst ` set n2i - D" using md(6) by auto
    qed (use md in simp_all)
    from done_nodes_effect[OF m1] obtain n2 Q' where n2:
      "done_nodes (n1, []) ready = Inr (n2, Q')" "graph_of n2 = graph_of n1"
      "mid (D \<union> set ready) [] n2 Q'" by blast
    have g2: "graph_of n2 = graph_of n2i" using n2(2) n1(2) by simp
    note sg2 = same_graph[OF g2]
    from a have a2: "acyclic (succ_rel n2)" unfolding sg2(1) .
    from 1(1)[OF False n1(1) n2(1) refl n2(3) a2] obtain rest where rest:
      "static_order_loop n2 Q' = Inr rest" "distinct rest"
      "set rest = fst ` set n2 - (D \<union> set ready)"
      "\<forall>k \<in> set rest. \<forall>p. (p, k) \<in> succ_rel n2 \<longrightarrow>
            p \<in> (D \<union> set ready) \<union> set (takeWhile (\<lambda>x. x \<noteq> k) rest)" by blast
    have e: "static_order_loop n2i ready = Inr (ready @ rest)"
      using False n1(1) n2(1) rest(1) by (simp add: static_order_loop.simps[of n2i ready])
    have d: "distinct (ready @ rest)" using md(7) rest(2,3) by auto
    have s: "set (ready @ rest) = fst ` set n2i - D" using rest(3) md(6) unfolding sg2(4) by auto
    have o: "\<forall>k \<in> set (ready @ rest). \<forall>p. (p, k) \<in> succ_rel n2i \<longrightarrow>
            p \<in> D \<union> set (takeWhile (\<lambda>x. x \<noteq> k) (ready @ rest))"
    proof (intro ballI allI impI)
      fix k p assume k: "k \<in> set (ready @ rest)" and e: "(p, k) \<in> succ_rel n2i"
      show "p \<in> D \<union> set (takeWhile (\<lambda>x. x \<noteq> k) (ready @ rest))"
      proof (cases "k \<in> set ready")
        case True
        with r0 have "indeg D n2i k = 0" by simp
        from indeg_zero_preds[OF this e] show ?thesis by simp
      next
        case nr: False
        with k have kr: "k \<in> set rest" by simp
        from nr have "takeWhile (\<lambda>x. x \<noteq> k) (ready @ rest) = ready @ takeWhile (\<lambda>x. x \<noteq> k) rest"
          by (intro takeWhile_append2) auto
        moreover from rest(4) kr e have "p \<in> (D \<union> set ready) \<union> set (takeWhile (\<lambda>x. x \<noteq> k) rest)"
          unfolding sg2(1) by blast
        ultimately show ?thesis by auto
      qed
    qed
    from e d s o show ?thesis by blast
  qed
qed

subsection \<open>Building the sorter: \<open>add\<close>\<close>

definition consistent :: "node2info \<Rightarrow> bool" where
  "consistent n2i =
     (distinct (map fst n2i) \<and> keys_ok n2i
      \<and> (\<forall>k \<in> fst ` set n2i. npred n2i k = int (indeg {} n2i k)))"

lemma succs_alt: "succs n2i k = (case map_of n2i k of None \<Rightarrow> [] | Some i \<Rightarrow> successors i)"
  by (cases "map_of n2i k") (simp_all add: succs_def map_of_graph_of del: map_of_eq_None_iff)

lemma get_nodeinfo_cases:
  "(k \<in> fst ` set n2i \<and> get_nodeinfo n2i k = n2i)
   \<or> (k \<notin> fst ` set n2i
       \<and> get_nodeinfo n2i k = n2i @ [(k, \<lparr> npredecessors = 0, successors = [] \<rparr>)])"
proof (cases "k \<in> fst ` set n2i")
  case True
  then obtain info where "map_of n2i k = Some info" using map_of_key[of k n2i] by auto
  with True show ?thesis by (simp add: get_nodeinfo_def)
next
  case False
  then have "map_of n2i k = None" by (simp add: map_of_eq_None_iff)
  then have "get_nodeinfo n2i k = n2i @ [(k, \<lparr> npredecessors = 0, successors = [] \<rparr>)]"
    unfolding get_nodeinfo_def by (simp only: option.simps)
  with False show ?thesis by simp
qed

lemma get_nodeinfo_props:
  "fst ` set (get_nodeinfo n2i k) = insert k (fst ` set n2i)"
  "distinct (map fst n2i) \<Longrightarrow> distinct (map fst (get_nodeinfo n2i k))"
  "npred (get_nodeinfo n2i k) = npred n2i"
  "succs (get_nodeinfo n2i k) = succs n2i"
  "indeg D (get_nodeinfo n2i k) n = indeg D n2i n"
  "universe (get_nodeinfo n2i k) = insert k (universe n2i)"
proof -
  note c = get_nodeinfo_cases[of k n2i]
  show "fst ` set (get_nodeinfo n2i k) = insert k (fst ` set n2i)" using c by auto
  show "distinct (map fst n2i) \<Longrightarrow> distinct (map fst (get_nodeinfo n2i k))" using c by auto
  show "npred (get_nodeinfo n2i k) = npred n2i"
  proof (rule ext)
    fix x
    from c show "npred (get_nodeinfo n2i k) x = npred n2i x"
    proof (elim disjE conjE)
      assume "get_nodeinfo n2i k = n2i" then show ?thesis by simp
    next
      assume e: "get_nodeinfo n2i k = n2i @ [(k, \<lparr> npredecessors = 0, successors = [] \<rparr>)]"
      show ?thesis unfolding e npred_def
        by (cases "map_of n2i x") (simp_all add: map_add_def del: map_of_eq_None_iff)
    qed
  qed
  show "succs (get_nodeinfo n2i k) = succs n2i"
  proof (rule ext)
    fix x
    from c show "succs (get_nodeinfo n2i k) x = succs n2i x"
    proof (elim disjE conjE)
      assume "get_nodeinfo n2i k = n2i" then show ?thesis by simp
    next
      assume e: "get_nodeinfo n2i k = n2i @ [(k, \<lparr> npredecessors = 0, successors = [] \<rparr>)]"
      show ?thesis unfolding e succs_alt
        by (cases "map_of n2i x") (simp_all add: map_add_def del: map_of_eq_None_iff)
    qed
  qed
  show "indeg D (get_nodeinfo n2i k) n = indeg D n2i n"
    using c by (auto simp: indeg_def graph_of_def)
  show "universe (get_nodeinfo n2i k) = insert k (universe n2i)"
    using c by (auto simp: universe_def)
qed

lemma keys_map_entry: "map fst (AList.map_entry k f xs) = map fst xs"
  by (induction xs) auto

lemma indeg_map_entry_append:
  "k \<in> fst ` set n2i \<Longrightarrow>
   indeg D (AList.map_entry k (\<lambda>i. i\<lparr> successors := successors i @ [node] \<rparr>) n2i) n
     = indeg D n2i n + (if n = node \<and> k \<notin> D then 1 else 0)"
  by (induction n2i) (force simp: indeg_def graph_of_def)+

lemma universe_Cons:
  "universe ((q, i) # n2i) = insert q (set (successors i) \<union> universe n2i)"
  by (auto simp: universe_def)

lemma universe_map_entry_append:
  "k \<in> fst ` set n2i \<Longrightarrow>
   universe (AList.map_entry k (\<lambda>i. i\<lparr> successors := successors i @ [node] \<rparr>) n2i)
     = insert node (universe n2i)"
proof (induction n2i)
  case Nil
  then show ?case by simp
next
  case (Cons x n2i)
  obtain q i where x: "x = (q, i)" by (cases x)
  show ?case
  proof (cases "q = k")
    case True
    then show ?thesis unfolding x by (simp add: universe_Cons) blast
  next
    case False
    with Cons.prems x have "k \<in> fst ` set n2i" by auto
    from Cons.IH[OF this] False show ?thesis unfolding x by (simp add: universe_Cons) blast
  qed
qed

lemma succs_map_entry_append:
  "k \<in> fst ` set n2i \<Longrightarrow>
   succs (AList.map_entry k (\<lambda>i. i\<lparr> successors := successors i @ [node] \<rparr>) n2i)
     = (succs n2i)(k := succs n2i k @ [node])"
proof -
  assume "k \<in> fst ` set n2i"
  then obtain info where i: "map_of n2i k = Some info" using map_of_key[of k n2i] by auto
  show ?thesis
  proof (rule ext)
    fix x
    show "succs (AList.map_entry k (\<lambda>i. i\<lparr> successors := successors i @ [node] \<rparr>) n2i) x
            = ((succs n2i)(k := succs n2i k @ [node])) x"
      unfolding succs_alt map_of_map_entry using i
      by (cases "map_of n2i x") (simp_all del: map_of_eq_None_iff)
  qed
qed

lemma npred_map_entry_same:
  assumes "\<And>i. npredecessors (f i) = npredecessors i"
  shows "npred (AList.map_entry k f n2i) k' = npred n2i k'"
  unfolding npred_map_entry using assms
  by (cases "map_of n2i k") (simp_all add: npred_def del: map_of_eq_None_iff)

lemma npred_notin_keys: "k \<notin> fst ` set n2i \<Longrightarrow> npred n2i k = 0"
proof -
  assume "k \<notin> fst ` set n2i"
  then have "map_of n2i k = None" by (simp add: map_of_eq_None_iff)
  then show ?thesis unfolding npred_def by (simp only: option.simps)
qed

lemma indeg_notin_universe: "n \<notin> universe n2i \<Longrightarrow> indeg D n2i n = 0"
  by (induction n2i) (auto simp: indeg_def graph_of_def universe_def count_list_0_iff)

definition owing :: "int \<Rightarrow> string \<Rightarrow> node2info \<Rightarrow> bool" where
  "owing j node n2i =
     (distinct (map fst n2i) \<and> keys_ok n2i \<and> node \<in> fst ` set n2i
      \<and> (\<forall>k \<in> fst ` set n2i.
            npred n2i k = int (indeg {} n2i k) + (if k = node then j else 0)))"

lemma add_successor_owing:
  assumes "owing j node n2i"
  shows "owing (j - 1) node (add_successor node n2i pred)"
    "fst ` set (add_successor node n2i pred) = insert pred (fst ` set n2i)"
    "succ_rel (add_successor node n2i pred) = insert (pred, node) (succ_rel n2i)"
proof -
  let ?g = "get_nodeinfo n2i pred"
  let ?f = "\<lambda>i. i\<lparr> successors := successors i @ [node] \<rparr>"
  let ?n = "add_successor node n2i pred"
  note gp = get_nodeinfo_props[where n2i=n2i and k=pred]
  from assms have dk: "distinct (map fst n2i)" and ko: "universe n2i \<subseteq> fst ` set n2i"
    and nk: "node \<in> fst ` set n2i"
    and np: "\<forall>k \<in> fst ` set n2i. npred n2i k = int (indeg {} n2i k) + (if k = node then j else 0)"
    by (auto simp: owing_def keys_ok_def)
  have pg: "pred \<in> fst ` set ?g" using gp(1) by simp
  have n: "?n = AList.map_entry pred ?f ?g" by (simp add: add_successor_def)
  show K: "fst ` set ?n = insert pred (fst ` set n2i)"
    unfolding n using gp(1) by (simp add: dom_map_entry)
  have d: "distinct (map fst ?n)" unfolding n keys_map_entry using gp(2)[OF dk] .
  have u: "universe ?n = insert node (insert pred (universe n2i))"
    unfolding n universe_map_entry_append[OF pg] gp(6) ..
  have ss: "succs ?n = (succs n2i)(pred := succs n2i pred @ [node])"
    unfolding n succs_map_entry_append[OF pg] gp(4) ..
  show "succ_rel ?n = insert (pred, node) (succ_rel n2i)"
    unfolding succ_rel_succs ss by (auto split: if_splits)
  have np': "npred ?n = npred n2i"
    unfolding n by (rule ext) (simp add: npred_map_entry_same gp(3))
  have ind: "\<And>k. indeg {} ?n k = indeg {} n2i k + (if k = node then 1 else 0)"
    unfolding n indeg_map_entry_append[OF pg] gp(5) by simp
  have "\<forall>k \<in> fst ` set ?n. npred ?n k = int (indeg {} ?n k) + (if k = node then j - 1 else 0)"
  proof
    fix k assume "k \<in> fst ` set ?n"
    then consider "k \<in> fst ` set n2i" | "k = pred" "pred \<notin> fst ` set n2i" unfolding K by auto
    then show "npred ?n k = int (indeg {} ?n k) + (if k = node then j - 1 else 0)"
    proof cases
      case 1
      from np[rule_format, OF 1] show ?thesis unfolding np' ind by simp
    next
      case 2
      with ko have "pred \<notin> universe n2i" by auto
      from indeg_notin_universe[OF this] have "indeg {} n2i pred = 0" .
      moreover from 2 have "npred n2i pred = 0" by (simp add: npred_notin_keys)
      moreover from 2 nk have "pred \<noteq> node" by auto
      ultimately show ?thesis unfolding np' ind 2(1) by simp
    qed
  qed
  moreover have "keys_ok ?n" unfolding keys_ok_def u K using ko nk by auto
  moreover have "node \<in> fst ` set ?n" unfolding K using nk by simp
  ultimately show "owing (j - 1) node ?n"
    unfolding owing_def using d by (intro conjI)
qed

lemma foldl_add_successor:
  "owing (int (length preds)) node n2i \<Longrightarrow>
   owing 0 node (foldl (add_successor node) n2i preds)
   \<and> fst ` set (foldl (add_successor node) n2i preds) = fst ` set n2i \<union> set preds
   \<and> succ_rel (foldl (add_successor node) n2i preds)
       = succ_rel n2i \<union> {(p, node) | p. p \<in> set preds}"
proof (induction preds arbitrary: n2i)
  case Nil
  then show ?case by simp
next
  case (Cons p preds)
  from add_successor_owing[OF Cons.prems, of p]
  have b: "owing (int (length preds)) node (add_successor node n2i p)"
    and k: "fst ` set (add_successor node n2i p) = insert p (fst ` set n2i)"
    and e: "succ_rel (add_successor node n2i p) = insert (p, node) (succ_rel n2i)"
    by simp_all
  from Cons.IH[OF b] show ?case unfolding k e by auto
qed

lemma add_consistent:
  assumes "consistent n2i"
  shows "consistent (add n2i node preds)"
    "fst ` set (add n2i node preds) = insert node (fst ` set n2i) \<union> set preds"
    "succ_rel (add n2i node preds) = succ_rel n2i \<union> {(p, node) | p. p \<in> set preds}"
proof -
  let ?g = "get_nodeinfo n2i node"
  let ?f = "\<lambda>i. i\<lparr> npredecessors := npredecessors i + int (length preds) \<rparr>"
  let ?n1 = "AList.map_entry node ?f ?g"
  note gp = get_nodeinfo_props[where n2i=n2i and k=node]
  from assms have dk: "distinct (map fst n2i)" and ko: "universe n2i \<subseteq> fst ` set n2i"
    and np: "\<forall>k \<in> fst ` set n2i. npred n2i k = int (indeg {} n2i k)"
    by (auto simp: consistent_def keys_ok_def)
  have g1: "graph_of ?n1 = graph_of ?g" by (simp add: graph_of_map_entry)
  note sg = same_graph[OF g1]
  have ng: "node \<in> fst ` set ?g" using gp(1) by simp
  then obtain info where i: "map_of ?g node = Some info" using map_of_key[of node ?g] by auto
  have npg: "\<forall>k \<in> fst ` set ?g. npred ?g k = int (indeg {} ?g k)"
  proof
    fix k assume "k \<in> fst ` set ?g"
    then consider "k \<in> fst ` set n2i" | "k = node" "node \<notin> fst ` set n2i" unfolding gp(1) by auto
    then show "npred ?g k = int (indeg {} ?g k)"
    proof cases
      case 1
      from np[rule_format, OF 1] show ?thesis unfolding gp(3) gp(5) .
    next
      case 2
      with ko have "node \<notin> universe n2i" by auto
      from indeg_notin_universe[OF this] have "indeg {} n2i node = 0" .
      moreover from 2 have "npred n2i node = 0" by (simp add: npred_notin_keys)
      ultimately show ?thesis unfolding gp(3) gp(5) 2(1) by simp
    qed
  qed
  have v: "npredecessors info = npred ?g node" using i by (simp add: npred_def)
  have np1: "\<And>k. npred ?n1 k = npred ?g k + (if k = node then int (length preds) else 0)"
    using i by (simp add: npred_map_entry v)
  have kg: "keys_ok ?g" unfolding keys_ok_def gp(6) gp(1) using ko by auto
  have b4: "\<forall>k \<in> fst ` set ?g.
              npred ?g k + (if k = node then int (length preds) else 0)
                = int (indeg {} ?g k) + (if k = node then int (length preds) else 0)"
    using npg by simp
  have b: "owing (int (length preds)) node ?n1"
    unfolding owing_def sg(2) sg(3) sg(4) sg(5) np1
    by (intro conjI gp(2)[OF dk] kg ng b4)
  have a: "add n2i node preds = foldl (add_successor node) ?n1 preds" by (simp add: add_def)
  from foldl_add_successor[OF b] have r: "owing 0 node (add n2i node preds)"
    "fst ` set (add n2i node preds) = fst ` set ?n1 \<union> set preds"
    "succ_rel (add n2i node preds) = succ_rel ?n1 \<union> {(p, node) | p. p \<in> set preds}"
    unfolding a by simp_all
  from r(1) show "consistent (add n2i node preds)" by (simp add: owing_def consistent_def)
  from r(2) show "fst ` set (add n2i node preds) = insert node (fst ` set n2i) \<union> set preds"
    unfolding sg(4) gp(1) .
  have "succ_rel ?g = succ_rel n2i" unfolding succ_rel_succs gp(4) ..
  with r(3) show "succ_rel (add n2i node preds) = succ_rel n2i \<union> {(p, node) | p. p \<in> set preds}"
    unfolding sg(1) by simp
qed

definition deps :: "(string \<times> string list) list \<Rightarrow> (string \<times> string) set" where
  "deps graph = {(node, p). \<exists>ps. (node, ps) \<in> set graph \<and> p \<in> set ps}"

definition nodes_of :: "(string \<times> string list) list \<Rightarrow> string set" where
  "nodes_of graph = fst ` set graph \<union> (\<Union>(node, ps) \<in> set graph. set ps)"

lemma foldl_add_consistent:
  "consistent n2i \<Longrightarrow>
   consistent (foldl (\<lambda>n2i (node, predecessors). add n2i node predecessors) n2i graph)
   \<and> fst ` set (foldl (\<lambda>n2i (node, predecessors). add n2i node predecessors) n2i graph)
       = fst ` set n2i \<union> nodes_of graph
   \<and> succ_rel (foldl (\<lambda>n2i (node, predecessors). add n2i node predecessors) n2i graph)
       = succ_rel n2i \<union> (deps graph)\<inverse>"
proof (induction graph arbitrary: n2i)
  case Nil
  then show ?case by (simp add: nodes_of_def deps_def)
next
  case (Cons x graph)
  obtain node ps where x: "x = (node, ps)" by (cases x)
  note a = add_consistent[OF Cons.prems, of node ps]
  from Cons.IH[OF a(1)] show ?case unfolding x a(2) a(3)
    by (auto simp: nodes_of_def deps_def)
qed

lemma init_consistent:
  "consistent (TopologicalSorter_init graph)"
  "fst ` set (TopologicalSorter_init graph) = nodes_of graph"
  "succ_rel (TopologicalSorter_init graph) = (deps graph)\<inverse>"
proof -
  have "consistent []" by (simp add: consistent_def keys_ok_def universe_def)
  from foldl_add_consistent[OF this, of graph]
  show "consistent (TopologicalSorter_init graph)"
    "fst ` set (TopologicalSorter_init graph) = nodes_of graph"
    "succ_rel (TopologicalSorter_init graph) = (deps graph)\<inverse>"
    by (simp_all add: TopologicalSorter_init_def succ_rel_def)
qed

lemma ready_nodes_mid:
  assumes "consistent n2i"
  shows "mid {} [] n2i (ready_nodes n2i)"
proof -
  from assms have dk: "distinct (map fst n2i)" and ko: "keys_ok n2i"
    and np: "\<forall>k \<in> fst ` set n2i. npred n2i k = int (indeg {} n2i k)"
    by (auto simp: consistent_def)
  have r: "k \<in> set (ready_nodes n2i) \<longleftrightarrow> k \<in> fst ` set n2i \<and> npred n2i k = 0" for k
  proof
    assume "k \<in> set (ready_nodes n2i)"
    then obtain i where i: "(k, i) \<in> set n2i" "npredecessors i = 0"
      by (auto simp: ready_nodes_def)
    from i(1) dk have "map_of n2i k = Some i" by simp
    with i show "k \<in> fst ` set n2i \<and> npred n2i k = 0"
      by (auto simp: npred_def intro: rev_image_eqI)
  next
    assume a: "k \<in> fst ` set n2i \<and> npred n2i k = 0"
    then obtain i where i: "map_of n2i k = Some i" using map_of_key[of k n2i] by auto
    with a have "npredecessors i = 0" by (simp add: npred_def)
    moreover from i have "(k, i) \<in> set n2i" by (rule map_of_SomeD)
    ultimately show "k \<in> set (ready_nodes n2i)" by (force simp: ready_nodes_def)
  qed
  have d: "distinct (ready_nodes n2i)" unfolding ready_nodes_def using dk by (simp add: distinct_map_filter)
  have s: "set (ready_nodes n2i) \<subseteq> fst ` set n2i - {} - set []" using r by auto
  have q: "\<forall>k \<in> fst ` set n2i - {} - set [].
             npred n2i k = int (indeg {} n2i k) \<and> (k \<in> set (ready_nodes n2i) \<longleftrightarrow> npred n2i k = 0)"
    using np r by simp
  show ?thesis unfolding mid_def
    by (intro conjI dk ko d s q) simp_all
qed

lemma static_order_acyclic:
  assumes "acyclic (deps graph)"
  shows "\<exists>order. static_order graph = Inr order \<and> distinct order
           \<and> set order = nodes_of graph
           \<and> (\<forall>k \<in> set order. \<forall>p. (k, p) \<in> deps graph \<longrightarrow>
                  p \<in> set (takeWhile (\<lambda>x. x \<noteq> k) order))"
proof -
  let ?n = "TopologicalSorter_init graph"
  note ic = init_consistent[of graph]
  from assms have a: "acyclic (succ_rel ?n)" unfolding ic(3) by simp
  from ic(1) have ko: "keys_ok ?n" by (simp add: consistent_def)
  from find_cycle_correct[OF ko] a obtain seen where f: "find_cycle ?n = Seen seen"
    by (cases "find_cycle ?n") (auto dest: is_cycle_not_acyclic)
  from static_order_loop_correct[OF ready_nodes_mid[OF ic(1)] a]
  obtain rest where r: "static_order_loop ?n (ready_nodes ?n) = Inr rest" "distinct rest"
    "set rest = fst ` set ?n - {}"
    "\<forall>k \<in> set rest. \<forall>p. (p, k) \<in> succ_rel ?n \<longrightarrow> p \<in> {} \<union> set (takeWhile (\<lambda>x. x \<noteq> k) rest)"
    by blast
  have "static_order graph = Inr rest" using f r(1) by (simp add: static_order_def)
  with r(2,3,4) show ?thesis unfolding ic(2) ic(3) by auto
qed

lemma static_order_cyclic:
  assumes "\<not> acyclic (deps graph)"
  shows "\<exists>c. static_order graph = Inl (CycleError c) \<and> is_cycle ((deps graph)\<inverse>) c"
proof -
  let ?n = "TopologicalSorter_init graph"
  note ic = init_consistent[of graph]
  from assms have a: "\<not> acyclic (succ_rel ?n)" unfolding ic(3) by simp
  from ic(1) have ko: "keys_ok ?n" by (simp add: consistent_def)
  from find_cycle_correct[OF ko] a obtain c where f: "find_cycle ?n = Cycle c"
    "is_cycle (succ_rel ?n) c"
    by (cases "find_cycle ?n") auto
  then show ?thesis unfolding ic(3) by (simp add: static_order_def)
qed
section \<open>The dependency graph and the pack order\<close>

text \<open>
  \<open>references\<close> is the relation the claims speak of: a partition references the
  partitions that the descriptors of its header name, itself excepted.
\<close>

definition references :: "(string \<times> avb_info) list \<Rightarrow> (string \<times> string) set" where
  "references tomls =
     {(name, partition_name). \<exists>avb_info d.
        (name, avb_info) \<in> set tomls \<and> d \<in> set (descriptors (header avb_info))
        \<and> d_partition_name d = Some partition_name \<and> partition_name \<noteq> name}"

definition before :: "string \<Rightarrow> string \<Rightarrow> string list \<Rightarrow> bool" where
  "before a b xs = (a \<in> set (takeWhile (\<lambda>x. x \<noteq> b) xs))"

lemma set_map_filter: "set (List.map_filter f xs) = {y. \<exists>x \<in> set xs. f x = Some y}"
  by (induction xs) (auto split: option.splits)

lemma set_referenced_names:
  "set (referenced_names name avb_info) =
     {pn. \<exists>d \<in> set (descriptors (header avb_info)). d_partition_name d = Some pn \<and> pn \<noteq> name}"
  by (auto simp: referenced_names_def set_map_filter)

lemma update_append: "k \<notin> fst ` set al \<Longrightarrow> AList.update k v al = al @ [(k, v)]"
  by (induction al) auto

lemma foldl_update_distinct:
  "distinct (map fst tomls) \<Longrightarrow> fst ` set acc \<inter> fst ` set tomls = {} \<Longrightarrow>
   foldl (\<lambda>graph (name, avb_info). AList.update name (referenced_names name avb_info) graph) acc tomls
     = acc @ map (\<lambda>(name, avb_info). (name, referenced_names name avb_info)) tomls"
proof (induction tomls arbitrary: acc)
  case Nil
  then show ?case by simp
next
  case (Cons x tomls)
  obtain name avb_info where x: "x = (name, avb_info)" by (cases x)
  from Cons.prems x have n: "name \<notin> fst ` set acc" by auto
  have d: "distinct (map fst tomls)" using Cons.prems by simp
  have "fst ` set (acc @ [(name, referenced_names name avb_info)]) \<inter> fst ` set tomls = {}"
    using Cons.prems x by auto
  from Cons.IH[OF d this] show ?case unfolding x by (simp add: update_append[OF n])
qed

lemma deps_Cons: "deps ((n, ps) # g) = {(n, p) | p. p \<in> set ps} \<union> deps g"
  by (auto simp: deps_def)

lemma deps_map:
  "deps (map (\<lambda>(name, x). (name, f name x)) xs)
     = {(name, p). \<exists>x. (name, x) \<in> set xs \<and> p \<in> set (f name x)}"
proof (induction xs)
  case Nil
  then show ?case by (simp add: deps_def)
next
  case (Cons y xs)
  obtain n x where y: "y = (n, x)" by (cases y)
  show ?case unfolding y by (simp add: deps_Cons Cons.IH) blast
qed

lemma avb_dep_graph_distinct:
  "distinct (map fst tomls) \<Longrightarrow>
   avb_dep_graph tomls = map (\<lambda>(name, avb_info). (name, referenced_names name avb_info)) tomls"
  using foldl_update_distinct[of tomls "[]"] by (simp add: avb_dep_graph_def)

lemma deps_graph_items:
  assumes "distinct (map fst tomls)" "iterates_sets si"
  shows "deps (graph_items si (avb_dep_graph tomls)) = references tomls"
    "nodes_of (graph_items si (avb_dep_graph tomls)) = fst ` set tomls \<union> Range (references tomls)"
proof -
  have s: "\<And>adds. set (si adds) = set adds" using assms(2) by (simp add: iterates_sets_def)
  have g: "graph_items si (avb_dep_graph tomls)
             = map (\<lambda>(name, avb_info). (name, si (referenced_names name avb_info))) tomls"
    unfolding avb_dep_graph_distinct[OF assms(1)] graph_items_def by (simp add: case_prod_beta)
  show d: "deps (graph_items si (avb_dep_graph tomls)) = references tomls"
    unfolding g deps_map references_def
    by (auto simp: s set_referenced_names)
  have "fst ` set (graph_items si (avb_dep_graph tomls)) = fst ` set tomls"
    unfolding g by (force simp: image_iff)
  moreover have "nodes_of G = fst ` set G \<union> Range (deps G)" for G
    by (auto simp: nodes_of_def deps_def Range_iff)
  ultimately show "nodes_of (graph_items si (avb_dep_graph tomls))
                     = fst ` set tomls \<union> Range (references tomls)"
    using d by simp
qed

lemma pack_order_acyclic:
  assumes "distinct (map fst (glob_avb_toml env))" "iterates_sets (set_iter env)"
    "acyclic (references (glob_avb_toml env))"
  shows "\<exists>order. avb_pack_order env = Inr order \<and> distinct order
           \<and> set order = fst ` set (glob_avb_toml env) \<union> Range (references (glob_avb_toml env))
           \<and> (\<forall>(name, partition_name) \<in> references (glob_avb_toml env).
                 before partition_name name order)"
proof -
  let ?G = "graph_items (set_iter env) (avb_dep_graph (glob_avb_toml env))"
  note dg = deps_graph_items[OF assms(1,2)]
  from assms(3) have "acyclic (deps ?G)" unfolding dg(1) .
  from static_order_acyclic[OF this] obtain order where o: "static_order ?G = Inr order"
    "distinct order" "set order = nodes_of ?G"
    "\<forall>k \<in> set order. \<forall>p. (k, p) \<in> deps ?G \<longrightarrow> p \<in> set (takeWhile (\<lambda>x. x \<noteq> k) order)"
    by blast
  have "\<forall>(name, partition_name) \<in> references (glob_avb_toml env). before partition_name name order"
  proof (clarify)
    fix name pn assume r: "(name, pn) \<in> references (glob_avb_toml env)"
    then have "name \<in> fst ` set (glob_avb_toml env)"
      by (auto simp: references_def intro: rev_image_eqI)
    then have "name \<in> set order" unfolding o(3) dg(2) by simp
    with o(4) r show "before pn name order" unfolding dg(1) before_def by blast
  qed
  with o(1,2,3) show ?thesis unfolding avb_pack_order_def dg(2) by blast
qed

lemma pack_order_cyclic:
  assumes "distinct (map fst (glob_avb_toml env))" "iterates_sets (set_iter env)"
    "\<not> acyclic (references (glob_avb_toml env))"
  shows "\<exists>c. avb_pack_order env = Inl (CycleError c)
           \<and> is_cycle ((references (glob_avb_toml env))\<inverse>) c"
proof -
  let ?G = "graph_items (set_iter env) (avb_dep_graph (glob_avb_toml env))"
  note dg = deps_graph_items[OF assms(1,2)]
  from assms(3) have "\<not> acyclic (deps ?G)" unfolding dg(1) .
  from static_order_cyclic[OF this] show ?thesis unfolding avb_pack_order_def dg(1) .
qed

lemma pack_order_Inr_acyclic:
  assumes "distinct (map fst (glob_avb_toml env))" "iterates_sets (set_iter env)"
    "avb_pack_order env = Inr order"
  shows "acyclic (references (glob_avb_toml env))"
  using pack_order_cyclic[OF assms(1,2)] assms(3) by auto

lemma pack_order_Inl_cyclic:
  assumes "distinct (map fst (glob_avb_toml env))" "iterates_sets (set_iter env)"
    "avb_pack_order env = Inl e"
  shows "\<not> acyclic (references (glob_avb_toml env))"
  using pack_order_acyclic[OF assms(1,2)] assms(3) by auto

lemma iterates_sets_remdups: "iterates_sets remdups"
  by (simp add: iterates_sets_def)

lemma iterates_sets_rev_remdups: "iterates_sets (\<lambda>adds. rev (remdups adds))"
  by (simp add: iterates_sets_def)

subsection \<open>The pack loop keeps the set of metadata files\<close>

lemma avb_pack_dom:
  "avb_pack env st name = (st', r) \<Longrightarrow> dom (avb_toml st') = dom (avb_toml st)"
  by (auto simp: avb_pack_def Let_def split: option.splits sum.splits if_splits)

lemma record_packed_toml: "avb_toml (record_packed st name avb_info) = avb_toml st"
  by (simp add: record_packed_def Let_def split: option.splits)

lemma pack_image_dom:
  assumes "pack_image env st name = (st', r)"
  shows "dom (avb_toml st') = dom (avb_toml st)"
proof (cases "startswith name ''vbmeta''")
  case False
  obtain st2 r2 where a: "avb_pack env st name = (st2, r2)" by (cases "avb_pack env st name")
  from avb_pack_dom[OF a] assms False a show ?thesis
    by (cases r2; cases "avb_toml st2 name") (clarsimp simp: pack_image_def record_packed_toml)+
next
  case True
  show ?thesis
  proof (cases "avb_toml st name")
    case None
    with assms True show ?thesis by (simp add: pack_image_def)
  next
    case (Some avb_info)
    show ?thesis
    proof (cases "prepare_vbmeta st avb_info")
      case (Inl e)
      with assms True Some show ?thesis by (simp add: pack_image_def)
    next
      case (Inr prepared)
      let ?st1 = "st\<lparr> avb_toml := (avb_toml st)(name \<mapsto> prepared) \<rparr>"
      obtain st2 r2 where a: "avb_pack env ?st1 name = (st2, r2)" by (cases "avb_pack env ?st1 name")
      from avb_pack_dom[OF a] Some have "dom (avb_toml st2) = dom (avb_toml st)" by auto
      with assms True Some Inr a show ?thesis
        by (cases r2; cases "avb_toml st2 name") (clarsimp simp: pack_image_def record_packed_toml)+
    qed
  qed
qed

lemma pack_image_missing:
  "avb_toml st name = None \<Longrightarrow>
   pack_image env st name = (st, Some (FileNotFoundError (name @ ''/avb.toml'')))"
  by (simp add: pack_image_def avb_pack_def)

lemma pack_loop_missing:
  "name \<in> set names \<Longrightarrow> avb_toml st name = None \<Longrightarrow>
   \<exists>st' e. pack_loop env st names = (st', Some e)"
proof (induction names arbitrary: st)
  case Nil
  then show ?case by simp
next
  case (Cons n names)
  obtain st1 r where p: "pack_image env st n = (st1, r)" by (cases "pack_image env st n")
  show ?case
  proof (cases r)
    case (Some e)
    with p show ?thesis by simp
  next
    case None
    have "n \<noteq> name"
    proof
      assume "n = name"
      with pack_image_missing[OF Cons.prems(2), of env] p None show False by simp
    qed
    with Cons.prems have m: "name \<in> set names" by simp
    from pack_image_dom[OF p] Cons.prems(2) have "avb_toml st1 name = None" by (metis domIff)
    from Cons.IH[OF m this] p None show ?thesis by simp
  qed
qed

lemma pack_subcommand_order_error:
  "avb_pack_order env = Inl e \<Longrightarrow> pack_subcommand env = (initial_state env, Some e)"
  by (simp add: pack_subcommand_def)

lemma pack_subcommand_missing:
  assumes "avb_pack_order env = Inr order" "name \<in> set order"
    "name \<notin> fst ` set (glob_avb_toml env)"
  shows "\<exists>st e. pack_subcommand env = (st, Some e)"
proof -
  from assms(3) have "avb_toml (initial_state env) name = None"
    by (simp add: initial_state_def map_of_eq_None_iff)
  from pack_loop_missing[OF assms(2) this, of env] assms(1)
  show ?thesis by (auto simp: pack_subcommand_def)
qed

section \<open>Properties of the specification\<close>

subsection \<open>The version gate\<close>

text \<open>
  C8. When the version the codec reports is lower than the required one, \<open>main\<close> ends
  with the version error and has called nothing: no directory is made and no image is
  unpacked or packed.
\<close>

theorem version_gate_stops_main:
  "tuple_less split AVBROOT_REQUIRED_VERSION \<Longrightarrow>
     main action version split uenv penv
       = ([], Some (ValueError (''avbroot version '' @ version @ '' < 3.19.0'')))"
  by (simp add: main_def check_avbroot_version_def)

definition sample_info :: "string \<Rightarrow> int \<Rightarrow> descriptor list \<Rightarrow> avb_info" where
  "sample_info alg fl ds =
     \<lparr> image_size = 0,
       header = \<lparr> required_libavb_version_major = 1, required_libavb_version_minor = 0,
                  algorithm_type = alg, hash = '''', signature = '''', public_key = ''K'',
                  public_key_metadata = '''', rollback_index = 0, flags = fl,
                  rollback_index_location = 0, release_string = '''', reserved = '''',
                  descriptors = ds \<rparr>,
       footer = None \<rparr>"

definition sample_pack_env :: "(string \<times> avb_info) list \<Rightarrow> pack_env" where
  "sample_pack_env tomls =
     \<lparr> glob_avb_toml = tomls, set_iter = remdups,
       codec_avb_pack = (\<lambda>name avb_info extra_args. Inr avb_info),
       codec_avb_verify = (\<lambda>st. None), lp_toml = Some [], codec_lp_pack = (\<lambda>st. None) \<rparr>"

definition sample_unpack_env :: "string list \<Rightarrow> unpack_env" where
  "sample_unpack_env files =
     \<lparr> input_files = files, iter_set = remdups,
       codec_avb_unpack = (\<lambda>img. Inr (sample_info ''None'' 0 [])),
       codec_avb_is_valid = (\<lambda>lp_name. True),
       codec_sparse_unpack = (\<lambda>chunk. None),
       codec_lp_unpack = Inr [],
       lp_image_size = (\<lambda>lp_name. Some 0) \<rparr>"

theorem version_gate_stops_main_witness:
  "tuple_less [3, 18, 9] AVBROOT_REQUIRED_VERSION
   \<and> main Pack ''3.18.9'' [3, 18, 9] (sample_unpack_env []) (sample_pack_env [])
       = ([], Some (ValueError ''avbroot version 3.18.9 < 3.19.0''))"
proof -
  have h: "tuple_less [3, 18, 9] AVBROOT_REQUIRED_VERSION"
    by (simp add: AVBROOT_REQUIRED_VERSION_def)
  from version_gate_stops_main[OF h, of Pack "''3.18.9''" "sample_unpack_env []" "sample_pack_env []"] h
  show ?thesis by simp
qed

subsection \<open>Generated metadata\<close>

text \<open>
  C5, as the code has it. For a reference descriptor that names its partition, the
  generated header has flags 0, rollback index location 0 (a constant: nothing is read
  from the descriptor) and the descriptor as its only one. For a \<open>ChainPartition\<close>
  descriptor the algorithm is \<open>Sha256Rsa4096\<close>, and hash, signature and public key are 64,
  512 and 1032 characters \<open>0\<close>; for every other type the algorithm is \<open>None\<close> and the three
  fields are empty.
\<close>

theorem generated_metadata_fields:
  "d_partition_name d = Some partition_name \<Longrightarrow>
   (\<exists>avb_info. avb_generate_metadata d = Inr avb_info
      \<and> flags (header avb_info) = 0
      \<and> rollback_index_location (header avb_info) = 0
      \<and> descriptors (header avb_info) = [d]
      \<and> (if d_type d = ''ChainPartition''
         then algorithm_type (header avb_info) = ''Sha256Rsa4096''
              \<and> hash (header avb_info) = replicate 64 (CHR ''0'')
              \<and> signature (header avb_info) = replicate 512 (CHR ''0'')
              \<and> public_key (header avb_info) = replicate 1032 (CHR ''0'')
         else algorithm_type (header avb_info) = ''None''
              \<and> hash (header avb_info) = ''''
              \<and> signature (header avb_info) = ''''
              \<and> public_key (header avb_info) = ''''))"
  by (cases "d_type d = ''ChainPartition''") (simp_all add: avb_generate_metadata_def)

definition chain_descriptor :: descriptor where
  "chain_descriptor =
     \<lparr> d_type = ''ChainPartition'', d_partition_name = Some ''vbmeta_system'',
       d_fields = [(''rollback_index_location'', TInt 1), (''public_key'', TStr ''00'')] \<rparr>"

theorem generated_metadata_fields_witness:
  "d_partition_name chain_descriptor = Some ''vbmeta_system''
   \<and> (\<exists>avb_info. avb_generate_metadata chain_descriptor = Inr avb_info
        \<and> algorithm_type (header avb_info) = ''Sha256Rsa4096''
        \<and> length (hash (header avb_info)) = 64
        \<and> length (signature (header avb_info)) = 512
        \<and> length (public_key (header avb_info)) = 1032
        \<and> flags (header avb_info) = 0)"
proof -
  have h: "d_partition_name chain_descriptor = Some ''vbmeta_system''"
    by (simp add: chain_descriptor_def)
  have t: "d_type chain_descriptor = ''ChainPartition''" by (simp add: chain_descriptor_def)
  from generated_metadata_fields[OF h] obtain avb_info where
    a: "avb_generate_metadata chain_descriptor = Inr avb_info"
       "flags (header avb_info) = 0"
       "if d_type chain_descriptor = ''ChainPartition''
         then algorithm_type (header avb_info) = ''Sha256Rsa4096''
              \<and> hash (header avb_info) = replicate 64 (CHR ''0'')
              \<and> signature (header avb_info) = replicate 512 (CHR ''0'')
              \<and> public_key (header avb_info) = replicate 1032 (CHR ''0'')
         else algorithm_type (header avb_info) = ''None''
              \<and> hash (header avb_info) = ''''
              \<and> signature (header avb_info) = ''''
              \<and> public_key (header avb_info) = ''''"
    by blast
  from a(3) t have "algorithm_type (header avb_info) = ''Sha256Rsa4096''"
    "length (hash (header avb_info)) = 64"
    "length (signature (header avb_info)) = 512"
    "length (public_key (header avb_info)) = 1032"
    by simp_all
  with h a(1,2) show ?thesis by blast
qed

text \<open>
  The claim as written fails on a \<open>ChainPartition\<close> descriptor with rollback index
  location 1: the generated signature has 512 characters, not 1024, and the generated
  rollback index location is 0, not the descriptor's 1.
\<close>

theorem generated_metadata_counterexample:
  "\<exists>avb_info. avb_generate_metadata chain_descriptor = Inr avb_info
     \<and> d_type chain_descriptor = ''ChainPartition''
     \<and> length (signature (header avb_info)) \<noteq> 1024
     \<and> map_of (d_fields chain_descriptor) ''rollback_index_location'' = Some (TInt 1)
     \<and> rollback_index_location (header avb_info) \<noteq> 1"
  by (simp add: avb_generate_metadata_def chain_descriptor_def)

subsection \<open>Recomputing the image size\<close>

text \<open>
  C10. \<open>avb_pack\<close> calls the codec with \<open>--recompute-size\<close> exactly when some descriptor of
  the partition's \<open>avb.toml\<close> has type \<open>HashTree\<close>, and with no extra argument otherwise.
\<close>

theorem recompute_size_iff_hashtree:
  "avb_toml st name = Some avb_info \<Longrightarrow>
   (\<exists>st' r extra_args.
      avb_pack env st name = (st', r)
      \<and> calls st' = calls st @ [AvbPack name avb_info extra_args]
      \<and> (''--recompute-size'' \<in> set extra_args)
          = (\<exists>d \<in> set (descriptors (header avb_info)). d_type d = ''HashTree'')
      \<and> (extra_args = [''--recompute-size''] \<or> extra_args = []))"
  by (auto simp: avb_pack_def avb_pack_extra_args_def Let_def split: sum.splits)

definition hashtree_descriptor :: "string \<Rightarrow> descriptor" where
  "hashtree_descriptor name =
     \<lparr> d_type = ''HashTree'', d_partition_name = Some name,
       d_fields = [(''root_digest'', TStr ''ab'')] \<rparr>"

definition hash_descriptor :: "string \<Rightarrow> descriptor" where
  "hash_descriptor name =
     \<lparr> d_type = ''Hash'', d_partition_name = Some name,
       d_fields = [(''digest'', TStr ''cd'')] \<rparr>"

theorem recompute_size_iff_hashtree_witness:
  "avb_toml (initial_state (sample_pack_env
       [(''system'', sample_info ''None'' 0 [hashtree_descriptor ''system''])])) ''system''
     = Some (sample_info ''None'' 0 [hashtree_descriptor ''system''])
   \<and> calls (fst (avb_pack
        (sample_pack_env [(''system'', sample_info ''None'' 0 [hashtree_descriptor ''system''])])
        (initial_state (sample_pack_env
           [(''system'', sample_info ''None'' 0 [hashtree_descriptor ''system''])])) ''system''))
       = [AvbPack ''system'' (sample_info ''None'' 0 [hashtree_descriptor ''system''])
            [''--recompute-size'']]"
proof -
  let ?info = "sample_info ''None'' 0 [hashtree_descriptor ''system'']"
  let ?env = "sample_pack_env [(''system'', ?info)]"
  have h: "avb_toml (initial_state ?env) ''system'' = Some ?info"
    by (simp add: initial_state_def sample_pack_env_def)
  have c: "calls (initial_state ?env) = []" by (simp add: initial_state_def)
  have d: "\<exists>d \<in> set (descriptors (header ?info)). d_type d = ''HashTree''"
    by (simp add: sample_info_def hashtree_descriptor_def)
  from recompute_size_iff_hashtree[OF h, of ?env] obtain st' r extra_args where
    a: "avb_pack ?env (initial_state ?env) ''system'' = (st', r)"
       "calls st' = calls (initial_state ?env) @ [AvbPack ''system'' ?info extra_args]"
       "(''--recompute-size'' \<in> set extra_args)
          = (\<exists>d \<in> set (descriptors (header ?info)). d_type d = ''HashTree'')"
       "extra_args = [''--recompute-size''] \<or> extra_args = []"
    by blast
  from a(3,4) d have "extra_args = [''--recompute-size'']" by auto
  with a(1,2) c h show ?thesis by simp
qed

subsection \<open>The pack order\<close>

text \<open>
  C1, as the code has it. When the names of the partition directories are distinct and
  no partition references itself through others, the sorter returns an order that holds
  every partition and every referenced name exactly once, and every partition comes after
  all the partitions it references, whatever order the directory listing and the
  iteration of the sets have. Which of several eligible partitions comes first is decided
  by those two orders, not by the names.
\<close>

theorem pack_order_after_references:
  "distinct (map fst (glob_avb_toml env)) \<Longrightarrow> iterates_sets (set_iter env) \<Longrightarrow>
   acyclic (references (glob_avb_toml env)) \<Longrightarrow>
   (\<exists>order. avb_pack_order env = Inr order \<and> distinct order
      \<and> set order = fst ` set (glob_avb_toml env) \<union> Range (references (glob_avb_toml env))
      \<and> (\<forall>(name, partition_name) \<in> references (glob_avb_toml env).
            before partition_name name order))"
proof -
  assume d: "distinct (map fst (glob_avb_toml env))" and i: "iterates_sets (set_iter env)"
    and a: "acyclic (references (glob_avb_toml env))"
  let ?G = "graph_items (set_iter env) (avb_dep_graph (glob_avb_toml env))"
  note dg = deps_graph_items[OF d i]
  from a have "acyclic (deps ?G)" unfolding dg(1) .
  from static_order_acyclic[OF this] obtain order where o: "static_order ?G = Inr order"
    "distinct order" "set order = nodes_of ?G"
    "\<forall>k \<in> set order. \<forall>p. (k, p) \<in> deps ?G \<longrightarrow> p \<in> set (takeWhile (\<lambda>x. x \<noteq> k) order)"
    by blast
  have "before partition_name name order"
    if r: "(name, partition_name) \<in> references (glob_avb_toml env)" for name partition_name
  proof -
    from r have "name \<in> fst ` set (glob_avb_toml env)"
      by (auto simp: references_def intro: rev_image_eqI)
    then have "name \<in> set order" unfolding o(3) dg(2) by simp
    with o(4) r show ?thesis unfolding dg(1) before_def by blast
  qed
  then have "\<forall>(name, partition_name) \<in> references (glob_avb_toml env).
               before partition_name name order" by blast
  with o(1,2,3) show ?thesis unfolding avb_pack_order_def dg(2) by blast
qed

definition three_partitions :: "(string \<times> avb_info) list" where
  "three_partitions =
     [(''vbmeta'', sample_info ''Sha256Rsa4096'' 3 [hash_descriptor ''boot'', hashtree_descriptor ''system'']),
      (''boot'', sample_info ''None'' 3 [hash_descriptor ''boot'']),
      (''system'', sample_info ''None'' 0 [hashtree_descriptor ''system''])]"

definition first_run :: pack_env where
  "first_run = sample_pack_env three_partitions"

definition second_run :: pack_env where
  "second_run = (sample_pack_env three_partitions)\<lparr> set_iter := (\<lambda>adds. rev (remdups adds)) \<rparr>"

lemma first_run_order: "avb_pack_order first_run = Inr [''boot'', ''system'', ''vbmeta'']"
  by code_simp

lemma second_run_order: "avb_pack_order second_run = Inr [''system'', ''boot'', ''vbmeta'']"
  by code_simp

lemma three_partitions_distinct: "distinct (map fst three_partitions)"
  by (simp add: three_partitions_def)

lemma three_partitions_references:
  "(''vbmeta'', ''boot'') \<in> references three_partitions"
  "(''vbmeta'', ''system'') \<in> references three_partitions"
  unfolding references_def three_partitions_def
  by (force simp: sample_info_def hash_descriptor_def hashtree_descriptor_def)+

theorem pack_order_after_references_witness:
  "distinct (map fst (glob_avb_toml first_run)) \<and> iterates_sets (set_iter first_run)
   \<and> acyclic (references (glob_avb_toml first_run))
   \<and> avb_pack_order first_run = Inr [''boot'', ''system'', ''vbmeta'']
   \<and> (''vbmeta'', ''boot'') \<in> references (glob_avb_toml first_run)
   \<and> before ''boot'' ''vbmeta'' [''boot'', ''system'', ''vbmeta'']
   \<and> (''vbmeta'', ''system'') \<in> references (glob_avb_toml first_run)
   \<and> before ''system'' ''vbmeta'' [''boot'', ''system'', ''vbmeta'']"
proof -
  have g: "glob_avb_toml first_run = three_partitions"
    by (simp add: first_run_def sample_pack_env_def)
  have h1: "distinct (map fst (glob_avb_toml first_run))"
    unfolding g by (rule three_partitions_distinct)
  have h2: "iterates_sets (set_iter first_run)"
    by (simp add: first_run_def sample_pack_env_def iterates_sets_remdups)
  have h3: "acyclic (references (glob_avb_toml first_run))"
    by (rule pack_order_Inr_acyclic[OF h1 h2 first_run_order])
  from pack_order_after_references[OF h1 h2 h3] obtain order where
    o: "avb_pack_order first_run = Inr order"
       "\<forall>(name, partition_name) \<in> references (glob_avb_toml first_run).
            before partition_name name order"
    by blast
  from o(1) first_run_order have e: "order = [''boot'', ''system'', ''vbmeta'']" by simp
  note r = three_partitions_references[folded g]
  from o(2) r have "before ''boot'' ''vbmeta'' order" "before ''system'' ''vbmeta'' order"
    by blast+
  with h1 h2 h3 r first_run_order show ?thesis unfolding e by blast
qed

text \<open>
  The claim as written asks for one order per graph. Two runs on the same directory whose
  interpreters iterate the set \<open>{boot, system}\<close> in different orders pack \<open>boot\<close> and
  \<open>system\<close> in different orders.
\<close>

theorem pack_order_counterexample:
  "glob_avb_toml first_run = glob_avb_toml second_run
   \<and> iterates_sets (set_iter first_run) \<and> iterates_sets (set_iter second_run)
   \<and> avb_pack_order first_run = Inr [''boot'', ''system'', ''vbmeta'']
   \<and> avb_pack_order second_run = Inr [''system'', ''boot'', ''vbmeta'']
   \<and> avb_pack_order first_run \<noteq> avb_pack_order second_run"
proof -
  have "glob_avb_toml first_run = glob_avb_toml second_run"
    by (simp add: first_run_def second_run_def)
  moreover have "iterates_sets (set_iter first_run)"
    by (simp add: first_run_def sample_pack_env_def iterates_sets_remdups)
  moreover have "iterates_sets (set_iter second_run)"
    by (simp add: second_run_def iterates_sets_rev_remdups)
  ultimately show ?thesis by (simp add: first_run_order second_run_order)
qed

subsection \<open>Cycles\<close>

text \<open>
  C4. When the references hold a cycle, the sorter raises \<open>CycleError\<close> with a list of
  partitions in which each one is referenced by the next and the last is the first again;
  \<open>pack_subcommand\<close> ends with that error in its initial state, having called nothing.
\<close>

theorem cycle_rejected:
  "distinct (map fst (glob_avb_toml env)) \<Longrightarrow> iterates_sets (set_iter env) \<Longrightarrow>
   \<not> acyclic (references (glob_avb_toml env)) \<Longrightarrow>
   (\<exists>c. avb_pack_order env = Inl (CycleError c)
      \<and> is_cycle ((references (glob_avb_toml env))\<inverse>) c
      \<and> pack_subcommand env = (initial_state env, Some (CycleError c))
      \<and> calls (initial_state env) = [])"
proof -
  assume a: "distinct (map fst (glob_avb_toml env))" "iterates_sets (set_iter env)"
    "\<not> acyclic (references (glob_avb_toml env))"
  from pack_order_cyclic[OF a] obtain c where c: "avb_pack_order env = Inl (CycleError c)"
    "is_cycle ((references (glob_avb_toml env))\<inverse>) c" by blast
  from pack_subcommand_order_error[OF c(1)] c show ?thesis
    by (auto simp: initial_state_def)
qed

definition two_in_a_cycle :: "(string \<times> avb_info) list" where
  "two_in_a_cycle =
     [(''a'', sample_info ''None'' 0 [chain_descriptor\<lparr> d_partition_name := Some ''b'' \<rparr>]),
      (''b'', sample_info ''None'' 0 [chain_descriptor\<lparr> d_partition_name := Some ''a'' \<rparr>])]"

lemma two_in_a_cycle_order:
  "avb_pack_order (sample_pack_env two_in_a_cycle) = Inl (CycleError [''a'', ''b'', ''a''])"
  by code_simp

theorem cycle_rejected_witness:
  "distinct (map fst (glob_avb_toml (sample_pack_env two_in_a_cycle)))
   \<and> iterates_sets (set_iter (sample_pack_env two_in_a_cycle))
   \<and> \<not> acyclic (references (glob_avb_toml (sample_pack_env two_in_a_cycle)))
   \<and> pack_subcommand (sample_pack_env two_in_a_cycle)
       = (initial_state (sample_pack_env two_in_a_cycle), Some (CycleError [''a'', ''b'', ''a'']))
   \<and> calls (initial_state (sample_pack_env two_in_a_cycle)) = []"
proof -
  let ?env = "sample_pack_env two_in_a_cycle"
  have h1: "distinct (map fst (glob_avb_toml ?env))"
    by (simp add: sample_pack_env_def two_in_a_cycle_def)
  have h2: "iterates_sets (set_iter ?env)"
    by (simp add: sample_pack_env_def iterates_sets_remdups)
  have h3: "\<not> acyclic (references (glob_avb_toml ?env))"
    by (rule pack_order_Inl_cyclic[OF h1 h2 two_in_a_cycle_order])
  from cycle_rejected[OF h1 h2 h3] obtain c where
    c: "avb_pack_order ?env = Inl (CycleError c)"
       "pack_subcommand ?env = (initial_state ?env, Some (CycleError c))"
       "calls (initial_state ?env) = []" by blast
  from c(1) two_in_a_cycle_order have "c = [''a'', ''b'', ''a'']" by simp
  with h1 h2 h3 c(2,3) show ?thesis by blast
qed

subsection \<open>References to unknown partitions\<close>

text \<open>
  C7, as the code has it. Building the graph raises nothing. A referenced name without a
  directory of its own becomes a node of the graph, and the pack order holds it, ahead of
  the partition that references it. The run fails later, in the pack loop: packing a
  partition without an \<open>avb.toml\<close> raises \<open>FileNotFoundError\<close>, so \<open>pack_subcommand\<close> ends
  with an error, at the latest when the loop reaches the unknown name.
\<close>

theorem unknown_reference_reaches_pack_loop:
  "distinct (map fst (glob_avb_toml env)) \<Longrightarrow> iterates_sets (set_iter env) \<Longrightarrow>
   acyclic (references (glob_avb_toml env)) \<Longrightarrow>
   (name, partition_name) \<in> references (glob_avb_toml env) \<Longrightarrow>
   partition_name \<notin> fst ` set (glob_avb_toml env) \<Longrightarrow>
   (\<exists>order. avb_pack_order env = Inr order
      \<and> partition_name \<in> set order \<and> before partition_name name order
      \<and> pack_image env (initial_state env) partition_name
          = (initial_state env, Some (FileNotFoundError (partition_name @ ''/avb.toml'')))
      \<and> (\<exists>st e. pack_subcommand env = (st, Some e)))"
proof -
  assume a: "distinct (map fst (glob_avb_toml env))" "iterates_sets (set_iter env)"
    "acyclic (references (glob_avb_toml env))"
    and r: "(name, partition_name) \<in> references (glob_avb_toml env)"
    and u: "partition_name \<notin> fst ` set (glob_avb_toml env)"
  from pack_order_acyclic[OF a] obtain order where o: "avb_pack_order env = Inr order"
    "set order = fst ` set (glob_avb_toml env) \<union> Range (references (glob_avb_toml env))"
    "\<forall>(name, partition_name) \<in> references (glob_avb_toml env). before partition_name name order"
    by blast
  from r o(2) have m: "partition_name \<in> set order" by auto
  from r o(3) have b: "before partition_name name order" by blast
  from u have "avb_toml (initial_state env) partition_name = None"
    by (simp add: initial_state_def map_of_eq_None_iff)
  from pack_image_missing[OF this]
  have p: "pack_image env (initial_state env) partition_name
          = (initial_state env, Some (FileNotFoundError (partition_name @ ''/avb.toml'')))" .
  from pack_subcommand_missing[OF o(1) m u] o(1) m b p show ?thesis by blast
qed

definition with_unknown_reference :: "(string \<times> avb_info) list" where
  "with_unknown_reference =
     [(''vbmeta'', sample_info ''Sha256Rsa4096'' 0 [chain_descriptor\<lparr> d_partition_name := Some ''ghost'' \<rparr>])]"

lemma with_unknown_reference_order:
  "avb_pack_order (sample_pack_env with_unknown_reference) = Inr [''ghost'', ''vbmeta'']"
  by code_simp

lemma with_unknown_reference_fails:
  "snd (pack_subcommand (sample_pack_env with_unknown_reference))
     = Some (FileNotFoundError ''ghost/avb.toml'')"
  by code_simp

theorem unknown_reference_reaches_pack_loop_witness:
  "distinct (map fst (glob_avb_toml (sample_pack_env with_unknown_reference)))
   \<and> iterates_sets (set_iter (sample_pack_env with_unknown_reference))
   \<and> acyclic (references (glob_avb_toml (sample_pack_env with_unknown_reference)))
   \<and> (''vbmeta'', ''ghost'') \<in> references (glob_avb_toml (sample_pack_env with_unknown_reference))
   \<and> ''ghost'' \<notin> fst ` set (glob_avb_toml (sample_pack_env with_unknown_reference))
   \<and> avb_pack_order (sample_pack_env with_unknown_reference) = Inr [''ghost'', ''vbmeta'']
   \<and> before ''ghost'' ''vbmeta'' [''ghost'', ''vbmeta'']
   \<and> (\<exists>st e. pack_subcommand (sample_pack_env with_unknown_reference) = (st, Some e))"
proof -
  let ?env = "sample_pack_env with_unknown_reference"
  have g: "glob_avb_toml ?env = with_unknown_reference" by (simp add: sample_pack_env_def)
  have h1: "distinct (map fst (glob_avb_toml ?env))"
    unfolding g by (simp add: with_unknown_reference_def)
  have h2: "iterates_sets (set_iter ?env)"
    by (simp add: sample_pack_env_def iterates_sets_remdups)
  have h3: "acyclic (references (glob_avb_toml ?env))"
    by (rule pack_order_Inr_acyclic[OF h1 h2 with_unknown_reference_order])
  have "(''vbmeta'', ''ghost'') \<in> references with_unknown_reference"
    unfolding references_def with_unknown_reference_def
    by (force simp: sample_info_def chain_descriptor_def)
  then have h4: "(''vbmeta'', ''ghost'') \<in> references (glob_avb_toml ?env)"
    unfolding g .
  have h5: "''ghost'' \<notin> fst ` set (glob_avb_toml ?env)"
    unfolding g by (simp add: with_unknown_reference_def)
  from unknown_reference_reaches_pack_loop[OF h1 h2 h3 h4 h5] obtain order where
    o: "avb_pack_order ?env = Inr order" "before ''ghost'' ''vbmeta'' order"
       "\<exists>st e. pack_subcommand ?env = (st, Some e)" by blast
  from o(1) with_unknown_reference_order have e: "order = [''ghost'', ''vbmeta'']" by simp
  from h1 h2 h3 h4 h5 o show ?thesis unfolding e by blast
qed

text \<open>
  The claim as written says that the graph builder fails. On a vbmeta header that
  references a partition \<open>ghost\<close> with no directory, it does not: the pack order is
  \<open>ghost, vbmeta\<close>, and the run ends in the pack loop with \<open>FileNotFoundError\<close>.
\<close>

theorem unknown_reference_counterexample:
  "''ghost'' \<notin> fst ` set (glob_avb_toml (sample_pack_env with_unknown_reference))
   \<and> avb_pack_order (sample_pack_env with_unknown_reference) = Inr [''ghost'', ''vbmeta'']
   \<and> snd (pack_subcommand (sample_pack_env with_unknown_reference))
       = Some (FileNotFoundError ''ghost/avb.toml'')"
  by (simp add: with_unknown_reference_order with_unknown_reference_fails)
     (simp add: sample_pack_env_def with_unknown_reference_def)

section \<open>The body of the pack loop\<close>

lemma record_packed_calls: "calls (record_packed st name avb_info) = calls st"
  by (simp add: record_packed_def Let_def split: option.splits)

lemma avb_pack_result:
  "avb_toml st name = Some avb_info \<Longrightarrow>
   (\<exists>e. avb_pack env st name
          = (st\<lparr> calls := calls st @ [AvbPack name avb_info (avb_pack_extra_args avb_info)] \<rparr>, Some e))
   \<or> (\<exists>written. avb_pack env st name
          = (st\<lparr> calls := calls st @ [AvbPack name avb_info (avb_pack_extra_args avb_info)],
                  avb_toml := (avb_toml st)(name \<mapsto> written),
                  out_images := insert name (out_images st) \<rparr>, None))"
  by (cases "codec_avb_pack env name avb_info (avb_pack_extra_args avb_info)")
     (auto simp: avb_pack_def Let_def)

lemma pack_image_calls_other:
  assumes "\<not> startswith name ''vbmeta''" "avb_toml st name = Some avb_info"
  shows "calls (fst (pack_image env st name))
           = calls st @ [AvbPack name avb_info (avb_pack_extra_args avb_info)]"
  using avb_pack_result[OF assms(2), where env=env] assms(1)
  by (auto simp: pack_image_def record_packed_calls)

lemma pack_image_calls_vbmeta:
  assumes "startswith name ''vbmeta''" "avb_toml st name = Some avb_info"
    "prepare_vbmeta st avb_info = Inr prepared"
  shows "calls (fst (pack_image env st name))
           = calls st @ [AvbPack name prepared (avb_pack_extra_args prepared)]"
proof -
  let ?st1 = "st\<lparr> avb_toml := (avb_toml st)(name \<mapsto> prepared) \<rparr>"
  have t: "avb_toml ?st1 name = Some prepared" by simp
  from avb_pack_result[OF t, where env=env] assms show ?thesis
    by (auto simp: pack_image_def record_packed_calls)
qed

lemma update_descriptor_Inr:
  "update_descriptor public_keys recorded d = Inr d' \<longleftrightarrow>
     (case d_partition_name d of
        None \<Rightarrow> d' = d
      | Some partition_name \<Rightarrow>
          (case public_keys partition_name of
             Some key \<Rightarrow> d' = d\<lparr> d_fields := AList.update ''public_key'' (TStr key) (d_fields d) \<rparr>
           | None \<Rightarrow> recorded partition_name = Some d'))"
  by (auto simp: update_descriptor_def split: option.splits)


lemma prepare_vbmeta_Inr:
  "prepare_vbmeta st avb_info = Inr prepared \<Longrightarrow>
   update_descriptors (avb_public_keys st) (avb_descriptors st) (descriptors (header avb_info))
     = Inr (descriptors (header prepared))
   \<and> flags (header prepared) = flags (header avb_info) AND NOT 3"
  by (auto simp: prepare_vbmeta_def split: sum.splits)

lemma low_bits_cleared: "(x AND NOT 3) AND 3 = (0::int)"
  by (simp add: and.assoc)

subsection \<open>Flags\<close>

text \<open>
  C3, as the code has it. The flags are cleared inside the \<open>if is_vbmeta\<close> block only. For
  a partition whose name starts with \<open>vbmeta\<close>, the \<open>avb.toml\<close> the codec is called on has
  the input flags with the two low bits cleared, so both are zero there; for every other
  partition the codec is called on the \<open>avb.toml\<close> as it is, flags included.
\<close>

theorem vbmeta_flags_cleared:
  "avb_toml st name = Some avb_info \<Longrightarrow>
   (startswith name ''vbmeta'' \<longrightarrow>
      (\<forall>prepared. prepare_vbmeta st avb_info = Inr prepared \<longrightarrow>
         flags (header prepared) = flags (header avb_info) AND NOT 3
         \<and> flags (header prepared) AND 3 = 0
         \<and> calls (fst (pack_image env st name))
             = calls st @ [AvbPack name prepared (avb_pack_extra_args prepared)]))
   \<and> (\<not> startswith name ''vbmeta'' \<longrightarrow>
        calls (fst (pack_image env st name))
          = calls st @ [AvbPack name avb_info (avb_pack_extra_args avb_info)])"
proof (intro conjI impI allI)
  fix prepared
  assume a: "avb_toml st name = Some avb_info" "startswith name ''vbmeta''"
    "prepare_vbmeta st avb_info = Inr prepared"
  from prepare_vbmeta_Inr[OF a(3)]
  show f: "flags (header prepared) = flags (header avb_info) AND NOT 3" by simp
  show "flags (header prepared) AND 3 = 0" unfolding f by (rule low_bits_cleared)
  show "calls (fst (pack_image env st name))
          = calls st @ [AvbPack name prepared (avb_pack_extra_args prepared)]"
    by (rule pack_image_calls_vbmeta[OF a(2) a(1) a(3)])
next
  assume "avb_toml st name = Some avb_info" "\<not> startswith name ''vbmeta''"
  then show "calls (fst (pack_image env st name))
               = calls st @ [AvbPack name avb_info (avb_pack_extra_args avb_info)]"
    by (intro pack_image_calls_other)
qed

definition flags_state :: "int \<Rightarrow> pack_state" where
  "flags_state fl =
     initial_state (sample_pack_env
       [(''vbmeta'', sample_info ''Sha256Rsa4096'' fl []), (''boot'', sample_info ''None'' fl [])])"

theorem vbmeta_flags_cleared_witness:
  "avb_toml (flags_state 5) ''vbmeta'' = Some (sample_info ''Sha256Rsa4096'' 5 [])
   \<and> startswith ''vbmeta'' ''vbmeta''
   \<and> prepare_vbmeta (flags_state 5) (sample_info ''Sha256Rsa4096'' 5 [])
       = Inr (sample_info ''Sha256Rsa4096'' 4 [])
   \<and> calls (fst (pack_image (sample_pack_env []) (flags_state 5) ''vbmeta''))
       = [AvbPack ''vbmeta'' (sample_info ''Sha256Rsa4096'' 4 []) []]
   \<and> avb_toml (flags_state 3) ''vbmeta'' = Some (sample_info ''Sha256Rsa4096'' 3 [])
   \<and> prepare_vbmeta (flags_state 3) (sample_info ''Sha256Rsa4096'' 3 [])
       = Inr (sample_info ''Sha256Rsa4096'' 0 [])
   \<and> calls (fst (pack_image (sample_pack_env []) (flags_state 3) ''vbmeta''))
       = [AvbPack ''vbmeta'' (sample_info ''Sha256Rsa4096'' 0 []) []]"
proof -
  have s: "startswith ''vbmeta'' ''vbmeta''" by (simp add: startswith_def)
  have h5: "avb_toml (flags_state 5) ''vbmeta'' = Some (sample_info ''Sha256Rsa4096'' 5 [])"
    by (simp add: flags_state_def initial_state_def sample_pack_env_def)
  have h3: "avb_toml (flags_state 3) ''vbmeta'' = Some (sample_info ''Sha256Rsa4096'' 3 [])"
    by (simp add: flags_state_def initial_state_def sample_pack_env_def)
  have c: "calls (flags_state fl) = []" for fl by (simp add: flags_state_def initial_state_def)
  have e: "avb_pack_extra_args (sample_info alg fl []) = []" for alg fl
    by (simp add: avb_pack_extra_args_def sample_info_def)
  have p5: "prepare_vbmeta (flags_state 5) (sample_info ''Sha256Rsa4096'' 5 [])
              = Inr (sample_info ''Sha256Rsa4096'' 4 [])"
    by (simp add: prepare_vbmeta_def sample_info_def)
  have p3: "prepare_vbmeta (flags_state 3) (sample_info ''Sha256Rsa4096'' 3 [])
              = Inr (sample_info ''Sha256Rsa4096'' 0 [])"
    by (simp add: prepare_vbmeta_def sample_info_def)
  from vbmeta_flags_cleared[OF h5, where env="sample_pack_env []"] s p5
  have "calls (fst (pack_image (sample_pack_env []) (flags_state 5) ''vbmeta''))
          = [AvbPack ''vbmeta'' (sample_info ''Sha256Rsa4096'' 4 []) []]"
    by (simp add: c e)
  moreover from vbmeta_flags_cleared[OF h3, where env="sample_pack_env []"] s p3
  have "calls (fst (pack_image (sample_pack_env []) (flags_state 3) ''vbmeta''))
          = [AvbPack ''vbmeta'' (sample_info ''Sha256Rsa4096'' 0 []) []]"
    by (simp add: c e)
  ultimately show ?thesis using s h5 h3 p5 p3 by blast
qed

text \<open>
  The claim as written covers every partition of the loop. A partition \<open>boot\<close> with flags 3
  is packed with flags 3: its name does not start with \<open>vbmeta\<close>, so nothing clears them.
\<close>

theorem flags_counterexample:
  "avb_toml (flags_state 3) ''boot'' = Some (sample_info ''None'' 3 [])
   \<and> calls (fst (pack_image (sample_pack_env []) (flags_state 3) ''boot''))
       = [AvbPack ''boot'' (sample_info ''None'' 3 []) []]
   \<and> flags (header (sample_info ''None'' 3 [])) AND 3 = 3"
proof -
  have h: "avb_toml (flags_state 3) ''boot'' = Some (sample_info ''None'' 3 [])"
    by (simp add: flags_state_def initial_state_def sample_pack_env_def)
  have n: "\<not> startswith ''boot'' ''vbmeta''" by (simp add: startswith_def)
  have c: "calls (flags_state 3) = []" by (simp add: flags_state_def initial_state_def)
  have e: "avb_pack_extra_args (sample_info ''None'' 3 []) = []"
    by (simp add: avb_pack_extra_args_def sample_info_def)
  from pack_image_calls_other[OF n h, where env="sample_pack_env []"] c e h show ?thesis
    by (simp add: sample_info_def)
qed
section \<open>What the pack loop has recorded\<close>

text \<open>
  \<open>packed_header env st child written\<close>: the codec was called on \<open>child\<close> in this run, it
  wrote \<open>written\<close> to the \<open>avb.toml\<close> of \<open>child\<close>, and that is what the file holds in \<open>st\<close>.
\<close>

definition packed_header :: "pack_env \<Rightarrow> pack_state \<Rightarrow> string \<Rightarrow> avb_info \<Rightarrow> bool" where
  "packed_header env st child written =
     (avb_toml st child = Some written
      \<and> list_ex (\<lambda>c. case c of
                       AvbPack name given extra_args \<Rightarrow>
                         name = child \<and> codec_avb_pack env name given extra_args = Inr written
                     | _ \<Rightarrow> False) (calls st))"

text \<open>
  The state of the two dictionaries after the loop has packed the partitions \<open>packed\<close>: a
  partition that was packed has its public key stored exactly when the header the codec
  wrote is signed, and has as stored descriptor the first descriptor of that header that
  names it; for a partition that was not packed nothing is stored and its \<open>avb.toml\<close> is
  the one of the input directory.
\<close>

definition recorded :: "pack_env \<Rightarrow> string list \<Rightarrow> pack_state \<Rightarrow> bool" where
  "recorded env packed st =
     ((\<forall>child. child \<notin> set packed \<longrightarrow>
          avb_toml st child = map_of (glob_avb_toml env) child
          \<and> avb_public_keys st child = None \<and> avb_descriptors st child = None)
      \<and> (\<forall>child \<in> set packed. \<exists>written. packed_header env st child written
            \<and> avb_public_keys st child
                = (if algorithm_type (header written) \<noteq> ''None''
                   then Some (public_key (header written)) else None)
            \<and> avb_descriptors st child
                = find (\<lambda>d. d_partition_name d = Some child) (descriptors (header written))))"













subsection \<open>The calls of a run only grow\<close>








subsection \<open>Descriptors of the children\<close>














section \<open>The logical partitions\<close>

lemma unpack_lp_loop_append:
  "unpack_lp_loop env st pre = (st1, None) \<Longrightarrow>
   unpack_lp_loop env st (pre @ rest) = unpack_lp_loop env st1 rest"
proof (induction pre arbitrary: st)
  case Nil
  then show ?case by simp
next
  case (Cons x pre)
  obtain st' r where s: "unpack_lp_partition env st x = (st', r)"
    by (cases "unpack_lp_partition env st x")
  with Cons.prems have r: "r = None" by (cases r) auto
  with Cons.prems s have "unpack_lp_loop env st' pre = (st1, None)" by simp
  from Cons.IH[OF this] s r show ?case by simp
qed

lemma pack_lp_loop_append:
  "pack_lp_loop st pre = (st1, None) \<Longrightarrow>
   pack_lp_loop st (pre @ rest) = pack_lp_loop st1 rest"
proof (induction pre arbitrary: st)
  case Nil
  then show ?case by simp
next
  case (Cons x pre)
  obtain st' r where s: "pack_lp_partition st x = (st', r)"
    by (cases "pack_lp_partition st x")
  with Cons.prems have r: "r = None" by (cases r) auto
  with Cons.prems s have "pack_lp_loop st' pre = (st1, None)" by simp
  from Cons.IH[OF this] s r show ?case by simp
qed

lemma unpack_lp_loop_fails:
  "x \<in> set names \<Longrightarrow> (\<And>st. snd (unpack_lp_partition env st x) \<noteq> None) \<Longrightarrow>
   snd (unpack_lp_loop env st names) \<noteq> None"
proof (induction names arbitrary: st)
  case Nil
  then show ?case by simp
next
  case (Cons y names)
  obtain st' r where s: "unpack_lp_partition env st y = (st', r)"
    by (cases "unpack_lp_partition env st y")
  show ?case
  proof (cases r)
    case (Some e)
    with s show ?thesis by simp
  next
    case None
    with s Cons.prems(2)[of st] have "y \<noteq> x" by auto
    with Cons.prems(1) have "x \<in> set names" by simp
    from Cons.IH[OF this Cons.prems(2), of st'] s None show ?thesis by simp
  qed
qed

lemma pack_lp_loop_fails:
  "x \<in> set names \<Longrightarrow> (\<And>st. snd (pack_lp_partition st x) \<noteq> None) \<Longrightarrow>
   snd (pack_lp_loop st names) \<noteq> None"
proof (induction names arbitrary: st)
  case Nil
  then show ?case by simp
next
  case (Cons y names)
  obtain st' r where s: "pack_lp_partition st y = (st', r)"
    by (cases "pack_lp_partition st y")
  show ?case
  proof (cases r)
    case (Some e)
    with s show ?thesis by simp
  next
    case None
    with s Cons.prems(2)[of st] have "y \<noteq> x" by auto
    with Cons.prems(1) have "x \<in> set names" by simp
    from Cons.IH[OF this Cons.prems(2), of st'] s None show ?thesis by simp
  qed
qed

text \<open>The slots that the unpack direction rejects, and those that both directions reject.\<close>

definition nonempty_b_slot :: "unpack_env \<Rightarrow> string \<Rightarrow> bool" where
  "nonempty_b_slot env lp_name =
     (endswith lp_name ''_b''
      \<and> (case lp_image_size env lp_name of None \<Rightarrow> False | Some st_size \<Rightarrow> st_size \<noteq> 0))"

definition unknown_slot :: "string \<Rightarrow> bool" where
  "unknown_slot lp_name = (\<not> endswith lp_name ''_a'' \<and> \<not> endswith lp_name ''_b'')"

lemma unpack_nonempty_b:
  "nonempty_b_slot env lp_name \<Longrightarrow>
   unpack_lp_partition env st lp_name = (st, Some (ValueError (lp_name @ '' should be empty'')))"
  by (auto simp: nonempty_b_slot_def unpack_lp_partition_def split: option.splits)

lemma unpack_unknown:
  "unknown_slot lp_name \<Longrightarrow>
   unpack_lp_partition env st lp_name
     = (st, Some (ValueError (''Unknown LP partition name: '' @ lp_name)))"
  by (simp add: unknown_slot_def unpack_lp_partition_def)

lemma pack_unknown:
  "unknown_slot lp_name \<Longrightarrow>
   pack_lp_partition st lp_name
     = (st, Some (ValueError (''Unknown LP partition name: '' @ lp_name)))"
  by (simp add: unknown_slot_def pack_lp_partition_def)

lemma unpack_subcommand_lp_fails:
  assumes "codec_lp_unpack env = Inr groups" "lp_name \<in> set (concat groups)"
    "\<And>st. snd (unpack_lp_partition env st lp_name) \<noteq> None"
  shows "snd (unpack_subcommand env) \<noteq> None"
proof -
  let ?s0 = "\<lparr> vbmeta_descriptors = [], lp_images = [], done_calls = [] \<rparr>"
  obtain st1 r1 where v: "unpack_vbmeta_loop env ?s0 (vbmeta_images env) = (st1, r1)"
    by (cases "unpack_vbmeta_loop env ?s0 (vbmeta_images env)")
  obtain st2 r2 where s: "sparse_unpack_loop env st1 (filter glob_super (input_files env)) = (st2, r2)"
    by (cases "sparse_unpack_loop env st1 (filter glob_super (input_files env))")
  let ?st3 = "st2\<lparr> done_calls := done_calls st2 @ [Mkdir ''super'', LpUnpack] \<rparr>"
  obtain st4 r4 where l: "unpack_lp_loop env ?st3 (concat groups) = (st4, r4)"
    by (cases "unpack_lp_loop env ?st3 (concat groups)")
  from unpack_lp_loop_fails[OF assms(2,3), of ?st3] l obtain e where "r4 = Some e" by auto
  with v s l assms(1) show ?thesis
    by (cases r1; cases r2) (simp_all add: unpack_subcommand_def Let_def)
qed

lemma pack_subcommand_lp_fails:
  assumes "lp_toml env = Some groups" "lp_name \<in> set (concat groups)"
    "\<And>st. snd (pack_lp_partition st lp_name) \<noteq> None"
  shows "snd (pack_subcommand env) \<noteq> None"
proof (cases "avb_pack_order env")
  case (Inl e)
  then show ?thesis by (simp add: pack_subcommand_def)
next
  case (Inr order)
  obtain st r where p: "pack_loop env (initial_state env) order = (st, r)"
    by (cases "pack_loop env (initial_state env) order")
  let ?st1 = "st\<lparr> calls := calls st @ [AvbVerify] \<rparr>"
  obtain st2 r2 where l: "pack_lp_loop ?st1 (concat groups) = (st2, r2)"
    by (cases "pack_lp_loop ?st1 (concat groups)")
  from pack_lp_loop_fails[OF assms(2,3), of ?st1] l obtain e where "r2 = Some e" by auto
  with Inr p l assms(1) show ?thesis
    by (cases r; cases "codec_avb_verify env st")
       (simp_all add: pack_subcommand_def pack_super_def Let_def)
qed

text \<open>
  C6. In the unpack direction, when the loop over the slots reaches a \<open>_b\<close> slot whose
  image is not empty, it stops with \<open>ValueError\<close> (the spec's \<open>InvariantViolation\<close>) naming
  the slot, and when it reaches a slot with neither suffix it stops with \<open>ValueError\<close> for
  the unknown name; the loop of the pack direction does the same for a slot with neither
  suffix. A run stops at its first error, so a run whose table holds such a slot never
  ends well: \<open>unpack_subcommand\<close> and \<open>pack_subcommand\<close> return an error.
\<close>

theorem bad_slots_rejected:
  "(unpack_lp_loop uenv ust pre = (ust', None) \<longrightarrow> nonempty_b_slot uenv lp_name \<longrightarrow>
      unpack_lp_loop uenv ust (pre @ lp_name # post)
        = (ust', Some (ValueError (lp_name @ '' should be empty''))))
   \<and> (unpack_lp_loop uenv ust pre = (ust', None) \<longrightarrow> unknown_slot lp_name \<longrightarrow>
      unpack_lp_loop uenv ust (pre @ lp_name # post)
        = (ust', Some (ValueError (''Unknown LP partition name: '' @ lp_name))))
   \<and> (pack_lp_loop pst pre = (pst', None) \<longrightarrow> unknown_slot lp_name \<longrightarrow>
      pack_lp_loop pst (pre @ lp_name # post)
        = (pst', Some (ValueError (''Unknown LP partition name: '' @ lp_name))))
   \<and> (codec_lp_unpack uenv = Inr groups \<longrightarrow> lp_name \<in> set (concat groups) \<longrightarrow>
      nonempty_b_slot uenv lp_name \<or> unknown_slot lp_name \<longrightarrow>
      snd (unpack_subcommand uenv) \<noteq> None)
   \<and> (lp_toml penv = Some groups \<longrightarrow> lp_name \<in> set (concat groups) \<longrightarrow>
      unknown_slot lp_name \<longrightarrow>
      snd (pack_subcommand penv) \<noteq> None)"
proof (intro conjI impI)
  assume "unpack_lp_loop uenv ust pre = (ust', None)" "nonempty_b_slot uenv lp_name"
  then show "unpack_lp_loop uenv ust (pre @ lp_name # post)
        = (ust', Some (ValueError (lp_name @ '' should be empty'')))"
    by (simp add: unpack_lp_loop_append unpack_nonempty_b)
next
  assume "unpack_lp_loop uenv ust pre = (ust', None)" "unknown_slot lp_name"
  then show "unpack_lp_loop uenv ust (pre @ lp_name # post)
        = (ust', Some (ValueError (''Unknown LP partition name: '' @ lp_name)))"
    by (simp add: unpack_lp_loop_append unpack_unknown)
next
  assume "pack_lp_loop pst pre = (pst', None)" "unknown_slot lp_name"
  then show "pack_lp_loop pst (pre @ lp_name # post)
        = (pst', Some (ValueError (''Unknown LP partition name: '' @ lp_name)))"
    by (simp add: pack_lp_loop_append pack_unknown)
next
  assume a: "codec_lp_unpack uenv = Inr groups" "lp_name \<in> set (concat groups)"
    "nonempty_b_slot uenv lp_name \<or> unknown_slot lp_name"
  have "snd (unpack_lp_partition uenv st lp_name) \<noteq> None" for st
    using a(3) by (auto simp: unpack_nonempty_b unpack_unknown)
  from unpack_subcommand_lp_fails[OF a(1,2) this]
  show "snd (unpack_subcommand uenv) \<noteq> None" .
next
  assume a: "lp_toml penv = Some groups" "lp_name \<in> set (concat groups)" "unknown_slot lp_name"
  have "snd (pack_lp_partition st lp_name) \<noteq> None" for st
    using a(3) by (simp add: pack_unknown)
  from pack_subcommand_lp_fails[OF a(1,2) this]
  show "snd (pack_subcommand penv) \<noteq> None" .
qed

definition empty_unpack_state :: unpack_state where
  "empty_unpack_state = \<lparr> vbmeta_descriptors = [], lp_images = [], done_calls = [] \<rparr>"

definition slots_unpack_env :: unpack_env where
  "slots_unpack_env =
     (sample_unpack_env [])
       \<lparr> codec_lp_unpack := Inr [[''system_a'', ''system_b'', ''odd'']],
         lp_image_size := (\<lambda>lp_name. if lp_name = ''system_b'' then Some 7 else Some 0) \<rparr>"

definition slots_pack_env :: pack_env where
  "slots_pack_env = (sample_pack_env [])\<lparr> lp_toml := Some [[''odd'']] \<rparr>"

definition after_system_a :: unpack_state where
  "after_system_a =
     \<lparr> vbmeta_descriptors = [], lp_images = [''system''],
       done_calls = [Mkdir ''system'', AvbUnpack (LpImage ''system_a'') ''system''] \<rparr>"

theorem bad_slots_rejected_witness:
  "unpack_lp_loop slots_unpack_env empty_unpack_state [''system_a'', ''system_b'', ''odd'']
     = (after_system_a, Some (ValueError ''system_b should be empty''))
   \<and> unpack_lp_loop slots_unpack_env empty_unpack_state [''odd'']
     = (empty_unpack_state, Some (ValueError ''Unknown LP partition name: odd''))
   \<and> pack_lp_loop (initial_state slots_pack_env) [''odd'']
     = (initial_state slots_pack_env, Some (ValueError ''Unknown LP partition name: odd''))
   \<and> snd (unpack_subcommand slots_unpack_env) \<noteq> None
   \<and> snd (pack_subcommand slots_pack_env) \<noteq> None"
proof -
  have b: "nonempty_b_slot slots_unpack_env ''system_b''"
    by (simp add: nonempty_b_slot_def slots_unpack_env_def endswith_def)
  have u: "unknown_slot ''odd''" by (simp add: unknown_slot_def endswith_def)
  have a: "unpack_lp_loop slots_unpack_env empty_unpack_state [''system_a''] = (after_system_a, None)"
    by (simp add: unpack_lp_partition_def slots_unpack_env_def sample_unpack_env_def
          empty_unpack_state_def after_system_a_def endswith_def removesuffix_def Let_def)
  have e: "unpack_lp_loop slots_unpack_env empty_unpack_state [] = (empty_unpack_state, None)"
    by simp
  have p: "pack_lp_loop (initial_state slots_pack_env) [] = (initial_state slots_pack_env, None)"
    by simp
  have g: "codec_lp_unpack slots_unpack_env = Inr [[''system_a'', ''system_b'', ''odd'']]"
    by (simp add: slots_unpack_env_def)
  have m: "''system_b'' \<in> set (concat [[''system_a'', ''system_b'', ''odd'']])" by simp
  have t: "lp_toml slots_pack_env = Some [[''odd'']]" by (simp add: slots_pack_env_def)
  have n: "''odd'' \<in> set (concat [[''odd'']])" by simp
  note r1 = bad_slots_rejected[where uenv=slots_unpack_env and ust=empty_unpack_state
      and pre="[''system_a'']" and ust'=after_system_a and lp_name="''system_b''"
      and post="[''odd'']" and groups="[[''system_a'', ''system_b'', ''odd'']]"]
  note r2 = bad_slots_rejected[where uenv=slots_unpack_env and ust=empty_unpack_state
      and pre="[]" and ust'=empty_unpack_state and lp_name="''odd''" and post="[]"
      and pst="initial_state slots_pack_env" and pst'="initial_state slots_pack_env"
      and penv=slots_pack_env and groups="[[''odd'']]"]
  from r1 a b g m have
    "unpack_lp_loop slots_unpack_env empty_unpack_state ([''system_a''] @ ''system_b'' # [''odd''])
       = (after_system_a, Some (ValueError (''system_b'' @ '' should be empty'')))"
    "snd (unpack_subcommand slots_unpack_env) \<noteq> None"
    by blast+
  moreover from r2 e p u t n have
    "unpack_lp_loop slots_unpack_env empty_unpack_state ([] @ ''odd'' # [])
       = (empty_unpack_state, Some (ValueError (''Unknown LP partition name: '' @ ''odd'')))"
    "pack_lp_loop (initial_state slots_pack_env) ([] @ ''odd'' # [])
       = (initial_state slots_pack_env, Some (ValueError (''Unknown LP partition name: '' @ ''odd'')))"
    "snd (pack_subcommand slots_pack_env) \<noteq> None"
    by blast+
  ultimately show ?thesis by simp
qed

section \<open>Images that nothing refers to\<close>
























end
